theory Spec2Isabelle
  imports Complex_Main "HOL-Library.Word" "HOL-Library.Sublist" "HOL-Library.Multiset"
begin

unbundle bit_operations_syntax

section \<open>Numbers\<close>

text \<open>
  Every number of the program is an IEEE-754 double. A finite double is kept as the
  rational number it denotes, and every arithmetic operation is the exact operation
  followed by rounding to the nearest double, ties to even, on a 53-bit significand.
  The exponent is not bounded: \<open>toDouble\<close> is the rounding of the program whenever the
  exact result is zero or has a magnitude from \<open>2 ^ -1022\<close> up to the largest finite
  double. Overflow to infinity and gradual underflow are outside the model, and so are
  infinities and negative zero. The one place where the program can produce a value that
  is not a finite number, the bucket key for a bucket size of zero, is written out below.
\<close>

fun ilog2 :: "nat \<Rightarrow> nat" where
  "ilog2 n = (if n < 2 then 0 else Suc (ilog2 (n div 2)))"

declare ilog2.simps [simp del]

text \<open>The binary exponent of a non-zero rational: \<open>2 powi bexp x \<le> \<bar>x\<bar> < 2 powi (bexp x + 1)\<close>.\<close>

definition bexp :: "rat \<Rightarrow> int" where
  "bexp x =
     (let (n, d) = quotient_of \<bar>x\<bar>;
          k = int (ilog2 (nat n)) - int (ilog2 (nat d))
      in if 2 powi k \<le> \<bar>x\<bar> then k else k - 1)"

definition roundHalfEven :: "rat \<Rightarrow> int" where
  "roundHalfEven q =
     (let f = \<lfloor>q\<rfloor>; r = q - of_int f
      in if r < 1 / 2 then f else if 1 / 2 < r then f + 1 else if even f then f else f + 1)"

definition toDouble :: "rat \<Rightarrow> rat" where
  "toDouble x =
     (if x = 0 then 0
      else let s = 2 powi (bexp x - 52) in of_int (roundHalfEven (x / s)) * s)"

text \<open>The four operations on doubles; the divisor of \<open>ddiv\<close> is never zero where it is used.\<close>

definition dadd :: "rat \<Rightarrow> rat \<Rightarrow> rat" where
  "dadd a b = toDouble (a + b)"

definition dsub :: "rat \<Rightarrow> rat \<Rightarrow> rat" where
  "dsub a b = toDouble (a - b)"

definition dmul :: "rat \<Rightarrow> rat \<Rightarrow> rat" where
  "dmul a b = toDouble (a * b)"

definition ddiv :: "rat \<Rightarrow> rat \<Rightarrow> rat" where
  "ddiv a b = toDouble (a / b)"

text \<open>
  Timestamps, bucket sizes and the generator's seed are integer-valued doubles and are kept
  as \<^typ>\<open>int\<close>. Their sums, differences and products are rounded like every other result;
  a double of magnitude \<open>2 ^ 53\<close> or more is still an integer.
\<close>

definition dint :: "int \<Rightarrow> int" where
  "dint n = \<lfloor>toDouble (of_int n)\<rfloor>"

definition iadd :: "int \<Rightarrow> int \<Rightarrow> int" where
  "iadd a b = dint (a + b)"

definition isub :: "int \<Rightarrow> int \<Rightarrow> int" where
  "isub a b = dint (a - b)"

definition imul :: "int \<Rightarrow> int \<Rightarrow> int" where
  "imul a b = dint (a * b)"

text \<open>
  \<^verbatim>\<open>Array.prototype.sort(cmp)\<close> is stable, and for a consistent comparator its result is
  the one stable ordering; insertion sort computes it. The argument \<open>gt a b\<close> stands
  for \<^verbatim>\<open>cmp(a, b) > 0\<close>.
\<close>

fun insertBy :: "('a \<Rightarrow> 'a \<Rightarrow> bool) \<Rightarrow> 'a \<Rightarrow> 'a list \<Rightarrow> 'a list" where
  "insertBy gt x [] = [x]"
| "insertBy gt x (y # ys) = (if gt x y then y # insertBy gt x ys else x # y # ys)"

definition sortBy :: "('a \<Rightarrow> 'a \<Rightarrow> bool) \<Rightarrow> 'a list \<Rightarrow> 'a list" where
  "sortBy gt xs = foldr (insertBy gt) xs []"

section \<open>Data model (src/types/telemetry.ts)\<close>

text \<open>
  JavaScript numbers are IEEE-754 doubles. Timestamps and bucket widths are integer
  milliseconds and are kept as \<^typ>\<open>int\<close>; event values are finite doubles and are kept as
  the rational number they denote. Optional fields are \<^typ>\<open>'a option\<close>.
\<close>

datatype EventType = Log | Metric | Trace | Error | Span

datatype ServiceName =
  ApiGateway | AuthService | UserService | PaymentService | NotificationService

datatype Level = Debug | Info | Warn | LevelError

datatype AggregationType = AggCount | AggAvg | AggP95 | AggSum | AggMin | AggMax

record TelemetryEvent =
  id_e :: string
  timestamp :: int
  value_e :: rat
  eventType :: EventType
  service :: ServiceName
  level :: "Level option"
  message :: "string option"
  tags :: "(string \<times> string) list option"

record TimeRange =
  start_t :: int
  end_t :: int

record FilterState =
  timeRange :: TimeRange
  eventTypes :: "EventType list"
  services :: "ServiceName list"
  searchQuery :: string

section \<open>Filter engine (filterEvents)\<close>

text \<open>
  \<^verbatim>\<open>String.prototype.toLowerCase\<close> on strings of ASCII characters: the letters A..Z
  (codes 65..90) move to a..z, every other character is unchanged. On other characters
  the method of the program follows the Unicode case mapping, which is not modelled; what
  is stated about the search clause is stated for ASCII strings, \<open>isAscii\<close> below.
\<close>

definition lowerChar :: "char \<Rightarrow> char" where
  "lowerChar c =
     (let n = (of_char c :: nat) in if 65 \<le> n \<and> n \<le> 90 then char_of (n + 32) else c)"

definition toLowerCase :: "string \<Rightarrow> string" where
  "toLowerCase s = map lowerChar s"

definition isAscii :: "string \<Rightarrow> bool" where
  "isAscii s = list_all (\<lambda>c. (of_char c :: nat) < 128) s"

text \<open>
  \<^verbatim>\<open>s.includes(q)\<close>: \<open>q\<close> occurs in \<open>s\<close> as a contiguous run of characters.
\<close>

definition str_includes :: "string \<Rightarrow> string \<Rightarrow> bool" where
  "str_includes s q = sublist q s"

text \<open>
  The callback given to \<^verbatim>\<open>events.filter\<close>, guard by guard as the source has them.
  A string is truthy when it is not empty; an absent message is falsy.
\<close>

definition keepEvent :: "FilterState \<Rightarrow> TelemetryEvent \<Rightarrow> bool" where
  "keepEvent filters event =
     (let searchLower = toLowerCase (searchQuery filters) in
      if timestamp event < start_t (timeRange filters)
         \<or> timestamp event > end_t (timeRange filters) then False
      else if length (eventTypes filters) > 0
         \<and> eventType event \<notin> set (eventTypes filters) then False
      else if length (services filters) > 0
         \<and> service event \<notin> set (services filters) then False
      else if searchQuery filters \<noteq> []
         \<and> (case message event of
               None \<Rightarrow> False
             | Some m \<Rightarrow> m \<noteq> [] \<and> \<not> str_includes (toLowerCase m) searchLower) then False
      else True)"

definition filterEvents :: "TelemetryEvent list \<Rightarrow> FilterState \<Rightarrow> TelemetryEvent list" where
  "filterEvents events filters = filter (keepEvent filters) events"

text \<open>
  The predicate of the specification, section 4.3, clause by clause: with a non-empty
  search query an event must have a message, and that message must contain the query.
\<close>

definition spec_matches :: "FilterState \<Rightarrow> TelemetryEvent \<Rightarrow> bool" where
  "spec_matches filters event =
     (start_t (timeRange filters) \<le> timestamp event
      \<and> timestamp event \<le> end_t (timeRange filters)
      \<and> (eventTypes filters = [] \<or> eventType event \<in> set (eventTypes filters))
      \<and> (services filters = [] \<or> service event \<in> set (services filters))
      \<and> (searchQuery filters = []
          \<or> (case message event of
                None \<Rightarrow> False
              | Some m \<Rightarrow> sublist (toLowerCase (searchQuery filters)) (toLowerCase m))))"

section \<open>Deterministic random source (createRng)\<close>

text \<open>
  Mulberry32. The closure's only state is \<^verbatim>\<open>seed\<close>, a double that grows by
  \<^verbatim>\<open>0x6D2B79F5\<close> on every call; the bitwise operators and \<^verbatim>\<open>Math.imul\<close> work on its
  value modulo \<open>2 ^ 32\<close>. A call returns the drawn value and the new state.
\<close>

definition createRng :: "int \<Rightarrow> int" where
  "createRng seed = seed"

definition rng :: "int \<Rightarrow> rat \<times> int" where
  "rng seed0 =
     (let seed = iadd seed0 1831565813;
          t0 = (word_of_int seed :: 32 word);
          t1 = (t0 XOR drop_bit 15 t0) * (t0 OR 1);
          t2 = t1 XOR (t1 + (t1 XOR drop_bit 7 t1) * (t1 OR 61))
      in (ddiv (of_nat (unat (t2 XOR drop_bit 14 t2))) 4294967296, seed))"

text \<open>The first \<open>n\<close> values of the source constructed from a seed.\<close>

fun rngValues :: "int \<Rightarrow> nat \<Rightarrow> rat list" where
  "rngValues s 0 = []"
| "rngValues s (Suc n) = (let (v, s') = rng s in v # rngValues s' n)"

section \<open>Event generator (generateEvents)\<close>

definition EVENT_TYPES :: "EventType list" where
  "EVENT_TYPES = [Log, Metric, Trace, Error, Span]"

definition SERVICES :: "ServiceName list" where
  "SERVICES = [ApiGateway, AuthService, UserService, PaymentService, NotificationService]"

definition LEVELS :: "Level list" where
  "LEVELS = [Debug, Info, Warn, LevelError]"

definition SAMPLE_MESSAGES :: "string list" where
  "SAMPLE_MESSAGES =
     [''Request processed successfully'',
      ''Database query completed'',
      ''Cache hit'',
      ''Cache miss - fetching from origin'',
      ''Authentication validated'',
      ''Rate limit check passed'',
      ''Connection established'',
      ''Timeout waiting for response'',
      ''Retrying failed request'',
      ''Batch job started'',
      ''Webhook delivered'',
      ''Message queued for processing'']"

text \<open>\<^verbatim>\<open>xs[Math.floor(r * xs.length)]\<close> for a drawn value \<open>r\<close>.\<close>

definition pick :: "'a list \<Rightarrow> rat \<Rightarrow> 'a" where
  "pick xs r = xs ! nat \<lfloor>dmul r (of_nat (length xs))\<rfloor>"

definition generateValue :: "EventType \<Rightarrow> int \<Rightarrow> rat \<times> int" where
  "generateValue ty seed =
     (case ty of
        Metric \<Rightarrow> (let (r, seed') = rng seed in (ddiv (of_int \<lfloor>dmul r 1000\<rfloor>) 10, seed'))
      | Trace \<Rightarrow> (let (r, seed') = rng seed in (dadd (of_int \<lfloor>dmul r 500\<rfloor>) 1, seed'))
      | Span \<Rightarrow> (let (r, seed') = rng seed in (dadd (of_int \<lfloor>dmul r 500\<rfloor>) 1, seed'))
      | Error \<Rightarrow> (let (r, seed') = rng seed in (dadd (of_int \<lfloor>dmul r 500\<rfloor>) 400, seed'))
      | Log \<Rightarrow> (let (r, seed') = rng seed in (of_int \<lfloor>dmul r 100\<rfloor>, seed')))"

text \<open>\<^verbatim>\<open>n.toString(36)\<close> for an integer.\<close>

definition digit36 :: "nat \<Rightarrow> char" where
  "digit36 d = ''0123456789abcdefghijklmnopqrstuvwxyz'' ! d"

fun natToString36 :: "nat \<Rightarrow> string" where
  "natToString36 n =
     (if n < 36 then [digit36 n] else natToString36 (n div 36) @ [digit36 (n mod 36)])"

declare natToString36.simps [simp del]

definition toString36 :: "int \<Rightarrow> string" where
  "toString36 i = (if i < 0 then CHR ''-'' # natToString36 (nat (- i)) else natToString36 (nat i))"

text \<open>
  One iteration of the loop body, up to the assignment to \<^verbatim>\<open>events[i]\<close>. The random
  source is drawn from eight times, in the order of the source text; \<^verbatim>\<open>Date.now()\<close> is
  read once, for the identifier. \<open>now\<close> is that reading.
\<close>

definition genEvent :: "int \<Rightarrow> int \<Rightarrow> int \<Rightarrow> nat \<Rightarrow> int \<Rightarrow> TelemetryEvent \<times> int" where
  "genEvent now startTime timeSpan i seed0 =
     (let (r1, seed1) = rng seed0;
          ty = pick EVENT_TYPES r1;
          (r2, seed2) = rng seed1;
          svc = pick SERVICES r2;
          (clusterCenter, seed3) = rng seed2;
          (r4, seed4) = rng seed3;
          clusterSpread = dmul r4 (toDouble (1 / 10));
          (r5, seed5) = rng seed4;
          normalizedTime =
            max 0 (min 1 (dadd clusterCenter (dmul (dsub r5 (1 / 2)) clusterSpread)));
          (v, seed6) = generateValue ty seed5;
          (r7, seed7) = rng seed6;
          (r8, seed8) = rng seed7
      in (\<lparr>id_e = ''evt_'' @ toString36 (int i) @ ''_'' @ toString36 now,
           timestamp = iadd startTime \<lfloor>dmul normalizedTime (of_int timeSpan)\<rfloor>,
           value_e = v,
           eventType = ty,
           service = svc,
           level = Some (pick LEVELS r7),
           message = Some (pick SAMPLE_MESSAGES r8),
           tags = None\<rparr>, seed8))"

definition chunkSize :: nat where
  "chunkSize = 5000"

text \<open>
  The loop, \<open>n\<close> iterations from index \<open>i\<close>: the events in index order and the payloads of
  the progress messages posted on the way. \<open>clock k\<close> is the \<open>k\<close>-th reading of
  \<^verbatim>\<open>Date.now()\<close> during the call; reading 0 seeds the random source, reading \<open>i + 1\<close>
  salts the identifier of event \<open>i\<close>.
\<close>

fun generateLoop ::
  "(nat \<Rightarrow> int) \<Rightarrow> nat \<Rightarrow> int \<Rightarrow> int \<Rightarrow> nat \<Rightarrow> nat \<Rightarrow> int \<Rightarrow> TelemetryEvent list \<times> rat list"
where
  "generateLoop clock cnt startTime timeSpan 0 i seed = ([], [])"
| "generateLoop clock cnt startTime timeSpan (Suc n) i seed =
     (let (event, seed') = genEvent (clock (Suc i)) startTime timeSpan i seed;
          progress =
            (if i mod chunkSize = 0 \<and> 0 < i
             then [dmul (ddiv (of_nat i) (of_nat cnt)) 100] else []);
          (events, notes) = generateLoop clock cnt startTime timeSpan n (Suc i) seed'
      in (event # events, progress @ notes))"

datatype js_error = RangeError string

text \<open>
  \<^verbatim>\<open>new Array(count)\<close> throws a RangeError unless the count is an integer from 0 to
  \<open>2 ^ 32 - 1\<close>. The result is the progress payloads and the events sorted by timestamp.
\<close>

definition generateEvents ::
  "(nat \<Rightarrow> int) \<Rightarrow> int \<Rightarrow> int \<Rightarrow> int \<Rightarrow> js_error + (rat list \<times> TelemetryEvent list)"
where
  "generateEvents clock cnt startTime endTime =
     (if cnt < 0 \<or> 4294967295 < cnt then Inl (RangeError ''Invalid array length'')
      else
        let timeSpan = isub endTime startTime;
            seed = createRng (clock 0);
            (events, notes) = generateLoop clock (nat cnt) startTime timeSpan (nat cnt) 0 seed
        in Inr (notes, sortBy (\<lambda>a b. 0 < isub (timestamp a) (timestamp b)) events))"

section \<open>Aggregation engine (aggregateEvents)\<close>

text \<open>
  A bucket key is a number; for a bucket size of zero the quotient is infinite or
  undefined and the product with zero is \<^verbatim>\<open>NaN\<close>.
\<close>

datatype jsnum = Num int | NaN

record AggregatedData =
  timestamp_a :: jsnum
  count_a :: nat
  avg_a :: rat
  sum_a :: rat
  min_a :: rat
  max_a :: rat
  p95_a :: rat

text \<open>\<^verbatim>\<open>Math.floor(event.timestamp / bucketSize) * bucketSize\<close>\<close>

definition bucketKey :: "int \<Rightarrow> int \<Rightarrow> jsnum" where
  "bucketKey ts bucketSize =
     (if bucketSize = 0 then NaN
      else Num (imul \<lfloor>ddiv (of_int ts) (of_int bucketSize)\<rfloor> bucketSize))"

text \<open>
  The \<^verbatim>\<open>Map\<close> from bucket key to value array, as an association list in insertion
  order, which is the order a \<^verbatim>\<open>Map\<close> is iterated in. Keys are compared as a
  \<^verbatim>\<open>Map\<close> compares them: \<^verbatim>\<open>NaN\<close> is equal to itself.
\<close>

fun addToBucket :: "jsnum \<Rightarrow> rat \<Rightarrow> (jsnum \<times> rat list) list \<Rightarrow> (jsnum \<times> rat list) list" where
  "addToBucket k v [] = [(k, [v])]"
| "addToBucket k v ((k', vs) # rest) =
     (if k' = k then (k', vs @ [v]) # rest else (k', vs) # addToBucket k v rest)"

definition groupValues :: "TelemetryEvent list \<Rightarrow> int \<Rightarrow> (jsnum \<times> rat list) list" where
  "groupValues events bucketSize =
     foldl (\<lambda>buckets event.
              addToBucket (bucketKey (timestamp event) bucketSize) (value_e event) buckets)
       [] events"

definition p95Index :: "nat \<Rightarrow> int" where
  "p95Index n = \<lfloor>dmul (of_nat n) (toDouble (95 / 100))\<rfloor>"

text \<open>
  The body of the second loop: the array is sorted in place, so the sum is taken over the
  sorted values, from the left.
\<close>

definition bucketStats :: "jsnum \<times> rat list \<Rightarrow> AggregatedData" where
  "bucketStats b =
     (case b of (ts, values0) \<Rightarrow>
        let vs = sortBy (\<lambda>a b. 0 < dsub a b) values0;
            sm = foldl dadd 0 vs;
            cnt = length vs
        in \<lparr>timestamp_a = ts,
            count_a = cnt,
            avg_a = ddiv sm (of_nat cnt),
            sum_a = sm,
            min_a = vs ! 0,
            max_a = vs ! (length vs - 1),
            p95_a = vs ! nat (min (p95Index (length vs)) (int (length vs) - 1))\<rparr>)"

text \<open>
  The comparator of the last sort, \<^verbatim>\<open>a.timestamp - b.timestamp\<close>: a difference that is
  \<^verbatim>\<open>NaN\<close> counts as zero.
\<close>

definition timestampAfter :: "jsnum \<Rightarrow> jsnum \<Rightarrow> bool" where
  "timestampAfter a b = (case (a, b) of (Num x, Num y) \<Rightarrow> 0 < isub x y | _ \<Rightarrow> False)"

definition aggregateEvents :: "TelemetryEvent list \<Rightarrow> int \<Rightarrow> AggregatedData list" where
  "aggregateEvents events bucketSize =
     (if length events = 0 then []
      else sortBy (\<lambda>a b. timestampAfter (timestamp_a a) (timestamp_a b))
             (map bucketStats (groupValues events bucketSize)))"

section \<open>Worker message handler (self.onmessage)\<close>

datatype WorkerRequest =
    Generate int TimeRange
  | Filter "TelemetryEvent list" FilterState
  | Aggregate "TelemetryEvent list" AggregationType int

datatype WorkerResponse =
    Generated "TelemetryEvent list"
  | Filtered "TelemetryEvent list"
  | Aggregated "AggregatedData list"
  | ErrorResponse string
  | Progress rat

text \<open>
  The messages posted while one request is handled, in order. An exception thrown inside
  the \<^verbatim>\<open>try\<close> block becomes an error response carrying its message.
\<close>

definition onmessage :: "(nat \<Rightarrow> int) \<Rightarrow> WorkerRequest \<Rightarrow> WorkerResponse list" where
  "onmessage clock request =
     (case request of
        Generate cnt tr \<Rightarrow>
          (case generateEvents clock cnt (start_t tr) (end_t tr) of
             Inl (RangeError msg) \<Rightarrow> [ErrorResponse msg]
           | Inr (notes, events) \<Rightarrow> map Progress notes @ [Generated events])
      | Filter events filters \<Rightarrow> [Filtered (filterEvents events filters)]
      | Aggregate events aggregationType bucketSize \<Rightarrow>
          [Aggregated (aggregateEvents events bucketSize)])"

section \<open>Bucket size selection (useTelemetryData)\<close>

definition MINUTE :: int where
  "MINUTE = 60 * 1000"

definition HOUR :: int where
  "HOUR = 60 * MINUTE"

text \<open>
  The effect that requests an aggregation: nothing is posted without a worker or without
  filtered events; otherwise the bucket size follows from the duration of the active range.
\<close>

definition aggregateEffect ::
  "bool \<Rightarrow> TelemetryEvent list \<Rightarrow> AggregationType \<Rightarrow> FilterState \<Rightarrow> WorkerRequest option"
where
  "aggregateEffect hasWorker filteredEvents aggregationType filters =
     (if \<not> hasWorker \<or> length filteredEvents = 0 then None
      else
        let duration = isub (end_t (timeRange filters)) (start_t (timeRange filters));
            bucketSize =
              (if duration \<le> HOUR then MINUTE
               else if duration \<le> 6 * HOUR then 5 * MINUTE
               else if duration \<le> 24 * HOUR then 15 * MINUTE
               else HOUR)
        in Some (Aggregate filteredEvents aggregationType bucketSize))"

section \<open>Concrete inputs\<close>

text \<open>Events, filter states and clocks used in the examples below.\<close>

definition mkEvent :: "int \<Rightarrow> EventType \<Rightarrow> ServiceName \<Rightarrow> string option \<Rightarrow> TelemetryEvent" where
  "mkEvent t ty svc msg =
     \<lparr>id_e = ''evt'', timestamp = t, value_e = 1, eventType = ty, service = svc,
      level = None, message = msg, tags = None\<rparr>"

definition sampleEvents :: "TelemetryEvent list" where
  "sampleEvents =
     [mkEvent 1000 Log ApiGateway (Some ''Request received''),
      mkEvent 2000 Error AuthService (Some ''Auth failed''),
      mkEvent 3000 Metric ApiGateway None,
      mkEvent 4000 Trace UserService (Some ''User lookup'')]"

definition searchFilters :: "string \<Rightarrow> FilterState" where
  "searchFilters q =
     \<lparr>timeRange = \<lparr>start_t = 0, end_t = 5000\<rparr>, eventTypes = [], services = [],
      searchQuery = q\<rparr>"

definition valueEvent :: "int \<Rightarrow> rat \<Rightarrow> TelemetryEvent" where
  "valueEvent t v =
     \<lparr>id_e = ''evt'', timestamp = t, value_e = v, eventType = Metric, service = ApiGateway,
      level = None, message = None, tags = None\<rparr>"

definition fourEvents :: "TelemetryEvent list" where
  "fourEvents = [valueEvent 0 10, valueEvent 500 20, valueEvent 1000 30, valueEvent 1500 40]"

definition hundredEvents :: "TelemetryEvent list" where
  "hundredEvents = map (\<lambda>i. valueEvent 0 (of_nat i)) [1..<101]"


definition rangeFilters :: "int \<Rightarrow> int \<Rightarrow> FilterState" where
  "rangeFilters s e =
     \<lparr>timeRange = \<lparr>start_t = s, end_t = e\<rparr>, eventTypes = [], services = [], searchQuery = []\<rparr>"

definition constClock :: "int \<Rightarrow> nat \<Rightarrow> int" where
  "constClock t k = t"

definition tickClock :: "int \<Rightarrow> nat \<Rightarrow> int" where
  "tickClock t k = (if k = 0 then t else t + 1)"

text \<open>A dataset with the identifiers blanked, to compare two runs up to identifiers.\<close>

definition stripIds :: "TelemetryEvent list \<Rightarrow> TelemetryEvent list" where
  "stripIds events = map (\<lambda>e. e\<lparr>id_e := []\<rparr>) events"

section \<open>Properties of rounding\<close>

lemma ilog2_bounds: "0 < n \<Longrightarrow> 2 ^ ilog2 n \<le> n \<and> n < 2 ^ Suc (ilog2 n)"
proof (induction n rule: ilog2.induct)
  case (1 n)
  show ?case
  proof (cases "n < 2")
    case True
    with "1.prems" have "n = 1" by simp
    then show ?thesis by (simp add: ilog2.simps)
  next
    case False
    then have pos: "0 < n div 2" by simp
    from "1.IH" [OF False pos]
    have ih: "2 ^ ilog2 (n div 2) \<le> n div 2" "n div 2 < 2 ^ Suc (ilog2 (n div 2))" by simp_all
    have eq: "ilog2 n = Suc (ilog2 (n div 2))" using False by (subst ilog2.simps) simp
    from ih show ?thesis unfolding eq by (simp; linarith)
  qed
qed

lemma powi_two_pos [simp]: "0 < (2::rat) powi k"
  by simp

lemma powi_two_Suc: "(2::rat) powi (k + 1) = 2 * 2 powi k"
  by (simp add: power_int_add)

lemma powi_two_pred: "(2::rat) powi (k - 1) = 2 powi k / 2"
  by (simp add: power_int_diff)

lemma powi_two_mono: "a \<le> b \<Longrightarrow> (2::rat) powi a \<le> 2 powi b"
  by (rule power_int_increasing) simp_all

lemma powi_two_lessD: "(2::rat) powi a < 2 powi b \<Longrightarrow> a < b"
  using powi_two_mono [of b a] by (cases "a < b") simp_all

lemma powi_two_leD: "(2::rat) powi a \<le> 2 powi b \<Longrightarrow> a \<le> b"
  using power_int_strict_increasing [of b a "2::rat"] by (cases "a \<le> b") simp_all

lemma bexp_bounds:
  assumes "x \<noteq> 0"
  shows "2 powi bexp x \<le> \<bar>x\<bar> \<and> \<bar>x\<bar> < 2 powi (bexp x + 1)"
proof -
  obtain n d where q: "quotient_of \<bar>x\<bar> = (n, d)" by (cases "quotient_of \<bar>x\<bar>")
  have d: "0 < d" using q by (rule quotient_of_denom_pos)
  have x: "\<bar>x\<bar> = of_int n / of_int d" using q by (rule quotient_of_div)
  have n: "0 < n"
  proof (rule ccontr)
    assume "\<not> 0 < n"
    then have "of_int n / (of_int d :: rat) \<le> 0" using d by (simp add: divide_nonpos_pos)
    with x assms show False by simp
  qed
  define a b where "a = nat n" and "b = nat d"
  have ab: "0 < a" "0 < b" using n d by (simp_all add: a_def b_def)
  have xab: "\<bar>x\<bar> = of_nat a / of_nat b" using x n d by (simp add: a_def b_def)
  define la lb where "la = ilog2 a" and "lb = ilog2 b"
  have A: "(2::rat) ^ la \<le> of_nat a" "of_nat a < (2::rat) ^ Suc la"
    using ilog2_bounds [OF ab(1)] unfolding la_def
    by (metis of_nat_le_iff of_nat_numeral of_nat_power, metis of_nat_less_iff of_nat_numeral of_nat_power)
  have B: "(2::rat) ^ lb \<le> of_nat b" "of_nat b < (2::rat) ^ Suc lb"
    using ilog2_bounds [OF ab(2)] unfolding lb_def
    by (metis of_nat_le_iff of_nat_numeral of_nat_power, metis of_nat_less_iff of_nat_numeral of_nat_power)
  define k where "k = int la - int lb"
  have bpos: "0 < (of_nat b :: rat)" using ab by simp
  have pk: "(2::rat) powi k = 2 ^ la / 2 ^ lb"
    by (simp add: k_def power_int_diff)
  have up: "\<bar>x\<bar> < 2 powi (k + 1)"
  proof -
    have "of_nat a / (of_nat b :: rat) < 2 ^ Suc la / 2 ^ lb"
      using A(2) B(1) bpos by (intro frac_less) simp_all
    then show ?thesis by (simp add: xab powi_two_Suc pk)
  qed
  have lo: "2 powi (k - 1) \<le> \<bar>x\<bar>"
  proof -
    have "(2::rat) ^ la / 2 ^ Suc lb \<le> of_nat a / of_nat b"
      using A(1) B(2) bpos by (intro frac_le) simp_all
    then show ?thesis by (simp add: xab powi_two_pred pk)
  qed
  have bx: "bexp x = (if 2 powi k \<le> \<bar>x\<bar> then k else k - 1)"
    by (simp add: bexp_def q k_def la_def lb_def a_def b_def)
  show ?thesis
  proof (cases "2 powi k \<le> \<bar>x\<bar>")
    case True
    then show ?thesis using up by (simp add: bx)
  next
    case False
    then show ?thesis using lo by (simp add: bx)
  qed
qed

lemma bexp_unique:
  assumes "2 powi k \<le> \<bar>x\<bar>" "\<bar>x\<bar> < 2 powi (k + 1)"
  shows "bexp x = k"
proof -
  have nz: "x \<noteq> 0"
  proof
    assume "x = 0"
    with assms(1) have "(2::rat) powi k \<le> 0" by simp
    moreover have "0 < (2::rat) powi k" by (rule zero_less_power_int) simp
    ultimately show False by linarith
  qed
  from bexp_bounds [OF nz] have b: "2 powi bexp x \<le> \<bar>x\<bar>" "\<bar>x\<bar> < 2 powi (bexp x + 1)"
    by simp_all
  have "(2::rat) powi k < 2 powi (bexp x + 1)" using assms(1) b(2) by simp
  then have 1: "k < bexp x + 1" by (rule powi_two_lessD)
  have "(2::rat) powi bexp x < 2 powi (k + 1)" using assms(2) b(1) by simp
  then have 2: "bexp x < k + 1" by (rule powi_two_lessD)
  from 1 2 show ?thesis by simp
qed


lemma roundHalfEven_of_int [simp]: "roundHalfEven (of_int m) = m"
  by (simp add: roundHalfEven_def)

lemma roundHalfEven_cases:
  "roundHalfEven q = \<lfloor>q\<rfloor> \<and> q - of_int \<lfloor>q\<rfloor> \<le> 1 / 2
   \<or> roundHalfEven q = \<lfloor>q\<rfloor> + 1 \<and> 1 / 2 \<le> q - of_int \<lfloor>q\<rfloor>"
  by (auto simp: roundHalfEven_def Let_def)

lemma roundHalfEven_error: "\<bar>of_int (roundHalfEven q) - q\<bar> \<le> 1 / 2"
proof -
  have "of_int \<lfloor>q\<rfloor> \<le> q" "q < of_int \<lfloor>q\<rfloor> + 1" by linarith+
  then show ?thesis using roundHalfEven_cases [of q] by auto
qed

lemma roundHalfEven_near:
  assumes "\<bar>q - of_int m\<bar> < 1 / 2"
  shows "roundHalfEven q = m"
proof -
  have "\<bar>(of_int (roundHalfEven q) :: rat) - of_int m\<bar> < 1"
    using roundHalfEven_error [of q] assms by linarith
  then have "\<bar>(of_int (roundHalfEven q - m) :: rat)\<bar> < 1" by simp
  then have "\<bar>roundHalfEven q - m\<bar> < 1"
    by (metis of_int_abs of_int_less_1_iff)
  then show ?thesis by simp
qed

lemma roundHalfEven_mono:
  assumes "q \<le> q'"
  shows "roundHalfEven q \<le> roundHalfEven q'"
proof -
  have fl: "\<lfloor>q\<rfloor> \<le> \<lfloor>q'\<rfloor>" using assms by (rule floor_mono)
  show ?thesis
  proof (cases "\<lfloor>q\<rfloor> = \<lfloor>q'\<rfloor>")
    case True
    then show ?thesis using assms
      by (auto simp: roundHalfEven_def Let_def)
  next
    case False
    with fl have "\<lfloor>q\<rfloor> + 1 \<le> \<lfloor>q'\<rfloor>" by simp
    then show ?thesis
      using roundHalfEven_cases [of q] roundHalfEven_cases [of q'] by auto
  qed
qed

lemma roundHalfEven_minus: "roundHalfEven (- q) = - roundHalfEven q"
proof (cases "q \<in> \<int>")
  case True
  then obtain m where "q = of_int m" by (auto elim: Ints_cases)
  then have "- q = of_int (- m)" by simp
  then show ?thesis using \<open>q = of_int m\<close> by (simp only: roundHalfEven_of_int)
next
  case False
  then have ne: "q \<noteq> of_int \<lfloor>q\<rfloor>" by (metis Ints_of_int)
  then have fl: "\<lfloor>- q\<rfloor> = - \<lfloor>q\<rfloor> - 1"
    by (simp add: floor_minus ceiling_altdef)
  have lt: "of_int \<lfloor>q\<rfloor> < q"
    unfolding less_le using ne by auto
  show ?thesis
    unfolding roundHalfEven_def Let_def fl
    using lt by (auto simp: field_simps)
qed

lemma toDouble_zero [simp]: "toDouble 0 = 0"
  by (simp add: toDouble_def)

lemma bexp_minus [simp]: "bexp (- x) = bexp x"
  by (simp add: bexp_def)

lemma toDouble_minus: "toDouble (- x) = - toDouble x"
  by (simp add: toDouble_def Let_def roundHalfEven_minus)

lemma toDouble_eqI:
  assumes "2 powi k \<le> \<bar>x\<bar>" "\<bar>x\<bar> < 2 powi (k + 1)"
    and "\<bar>x / 2 powi (k - 52) - of_int m\<bar> < 1 / 2"
  shows "toDouble x = of_int m * 2 powi (k - 52)"
proof -
  have k: "bexp x = k" using assms(1,2) by (rule bexp_unique)
  have nz: "x \<noteq> 0"
  proof
    assume "x = 0"
    with assms(1) have "(2::rat) powi k \<le> 0" by simp
    moreover have "0 < (2::rat) powi k" by (rule zero_less_power_int) simp
    ultimately show False by linarith
  qed
  show ?thesis
    using nz by (simp add: toDouble_def Let_def k roundHalfEven_near [OF assms(3)])
qed

lemma toDouble_exactI:
  assumes "2 powi k \<le> \<bar>x\<bar>" "\<bar>x\<bar> < 2 powi (k + 1)"
    and "x / 2 powi (k - 52) = of_int m"
  shows "toDouble x = x"
proof -
  have "toDouble x = of_int m * 2 powi (k - 52)"
    using assms(1,2) by (rule toDouble_eqI) (simp add: assms(3))
  also have "\<dots> = x" using assms(3) [symmetric] by simp
  finally show ?thesis .
qed


lemma powi_scale: "(2::rat) powi k = 2 ^ 52 * 2 powi (k - 52)"
  by (simp add: power_int_diff)

lemma powi_scale_Suc: "(2::rat) powi (k + 1) = 2 ^ 53 * 2 powi (k - 52)"
  by (simp add: power_int_diff power_int_add)

lemma toDouble_pos_bounds:
  assumes "0 < x"
  shows "2 powi bexp x \<le> toDouble x \<and> toDouble x \<le> 2 powi (bexp x + 1)"
proof -
  define s where "s = (2::rat) powi (bexp x - 52)"
  have s: "0 < s" unfolding s_def by (rule zero_less_power_int) simp
  have nz: "x \<noteq> 0" using assms by simp
  from bexp_bounds [OF nz] assms
  have b: "2 powi bexp x \<le> x" "x < 2 powi (bexp x + 1)" by simp_all
  have lo: "of_int (2 ^ 52) \<le> x / s"
    using b(1) s by (subst (asm) powi_scale) (simp add: s_def pos_le_divide_eq)
  have hi: "x / s \<le> of_int (2 ^ 53)"
    using b(2) s by (subst (asm) powi_scale_Suc) (simp add: s_def pos_divide_le_eq)
  have "roundHalfEven (of_int (2 ^ 52)) \<le> roundHalfEven (x / s)"
    using lo by (rule roundHalfEven_mono)
  then have 1: "(2 ^ 52 :: rat) \<le> of_int (roundHalfEven (x / s))"
    unfolding roundHalfEven_of_int by (metis of_int_le_iff of_int_numeral of_int_power)
  have "roundHalfEven (x / s) \<le> roundHalfEven (of_int (2 ^ 53))"
    using hi by (rule roundHalfEven_mono)
  then have 2: "of_int (roundHalfEven (x / s)) \<le> (2 ^ 53 :: rat)"
    unfolding roundHalfEven_of_int by (metis of_int_le_iff of_int_numeral of_int_power)
  have td: "toDouble x = of_int (roundHalfEven (x / s)) * s"
    using nz by (simp add: toDouble_def Let_def s_def)
  have "2 ^ 52 * s \<le> toDouble x" unfolding td using 1 s by (simp add: mult_right_mono)
  moreover have "toDouble x \<le> 2 ^ 53 * s" unfolding td using 2 s by (simp add: mult_right_mono)
  ultimately show ?thesis
    by (subst powi_scale, subst powi_scale_Suc) (simp add: s_def)
qed

lemma toDouble_pos: "0 < x \<Longrightarrow> 0 < toDouble x"
proof -
  assume "0 < x"
  then have "2 powi bexp x \<le> toDouble x" using toDouble_pos_bounds by blast
  moreover have "0 < (2::rat) powi bexp x" by (rule zero_less_power_int) simp
  ultimately show ?thesis by linarith
qed

lemma toDouble_neg: "x < 0 \<Longrightarrow> toDouble x < 0"
  using toDouble_pos [of "- x"] by (simp add: toDouble_minus)

lemma toDouble_mono_pos:
  assumes "0 < x" "x \<le> y"
  shows "toDouble x \<le> toDouble y"
proof -
  have y: "0 < y" using assms by simp
  have nzx: "x \<noteq> 0" and nzy: "y \<noteq> 0" using assms by simp_all
  from bexp_bounds [OF nzx] assms(1)
  have bx: "2 powi bexp x \<le> x" "x < 2 powi (bexp x + 1)" by simp_all
  from bexp_bounds [OF nzy] y
  have byy: "2 powi bexp y \<le> y" "y < 2 powi (bexp y + 1)" by simp_all
  have "(2::rat) powi bexp x < 2 powi (bexp y + 1)" using bx(1) byy(2) assms(2) by linarith
  then have le: "bexp x \<le> bexp y" using powi_two_lessD by fastforce
  show ?thesis
  proof (cases "bexp x = bexp y")
    case True
    define s where "s = (2::rat) powi (bexp y - 52)"
    have s: "0 < s" unfolding s_def by (rule zero_less_power_int) simp
    have "x / s \<le> y / s" using assms(2) s by (simp add: divide_right_mono)
    then have "roundHalfEven (x / s) \<le> roundHalfEven (y / s)" by (rule roundHalfEven_mono)
    then have "(of_int (roundHalfEven (x / s)) :: rat) * s \<le> of_int (roundHalfEven (y / s)) * s"
      using s by (simp add: mult_right_mono)
    then show ?thesis using nzx nzy by (simp add: toDouble_def Let_def True s_def)
  next
    case False
    with le have "bexp x + 1 \<le> bexp y" by simp
    then have "(2::rat) powi (bexp x + 1) \<le> 2 powi bexp y" by (rule powi_two_mono)
    moreover have "toDouble x \<le> 2 powi (bexp x + 1)"
      using toDouble_pos_bounds [OF assms(1)] by blast
    moreover have "2 powi bexp y \<le> toDouble y"
      using toDouble_pos_bounds [OF y] by blast
    ultimately show ?thesis by linarith
  qed
qed

lemma toDouble_mono:
  assumes "x \<le> y"
  shows "toDouble x \<le> toDouble y"
proof -
  consider "0 < x" | "x \<le> 0" "0 \<le> y" | "y < 0" using assms by linarith
  then show ?thesis
  proof cases
    case 1
    then show ?thesis using assms by (rule toDouble_mono_pos)
  next
    case 2
    have "toDouble x \<le> 0"
      using 2(1) toDouble_neg [of x] by (cases "x = 0") simp_all
    moreover have "0 \<le> toDouble y"
      using 2(2) toDouble_pos [of y] by (cases "y = 0") simp_all
    ultimately show ?thesis by linarith
  next
    case 3
    then have "0 < - y" "- y \<le> - x" using assms by simp_all
    then have "toDouble (- y) \<le> toDouble (- x)" by (rule toDouble_mono_pos)
    then show ?thesis by (simp add: toDouble_minus)
  qed
qed


lemma toDouble_dyadic:
  assumes "\<bar>m\<bar> \<le> 2 ^ 53"
  shows "toDouble (of_int m * 2 powi e) = of_int m * 2 powi e"
proof (cases "m = 0")
  case True
  then show ?thesis by simp
next
  case False
  define x where "x = (of_int m :: rat) * 2 powi e"
  have nz: "x \<noteq> 0" using False by (simp add: x_def)
  define k where "k = bexp x"
  from bexp_bounds [OF nz]
  have b: "2 powi k \<le> \<bar>x\<bar>" "\<bar>x\<bar> < 2 powi (k + 1)" by (simp_all add: k_def)
  have ax: "\<bar>x\<bar> = of_int \<bar>m\<bar> * 2 powi e" by (simp add: x_def abs_mult)
  have q: "x / 2 powi (k - 52) = of_int m * 2 powi (e - k + 52)"
    by (simp add: x_def power_int_diff power_int_add)
  have "\<exists>j. x / 2 powi (k - 52) = of_int j"
  proof (cases "0 \<le> e - k + 52")
    case True
    then have "(2::rat) powi (e - k + 52) = of_int (2 ^ nat (e - k + 52))"
      by (simp add: power_int_def)
    then have "x / 2 powi (k - 52) = of_int (m * 2 ^ nat (e - k + 52))"
      unfolding q by simp
    then show ?thesis ..
  next
    case F: False
    then have ek: "e + 53 \<le> k" by simp
    then have "(2::rat) powi (e + 53) \<le> 2 powi k" by (rule powi_two_mono)
    with b(1) have "(2::rat) powi (e + 53) \<le> of_int \<bar>m\<bar> * 2 powi e" by (simp add: ax)
    then have "(2::rat) ^ 53 * 2 powi e \<le> of_int \<bar>m\<bar> * 2 powi e"
      by (simp add: power_int_add)
    then have "(2::rat) ^ 53 \<le> of_int \<bar>m\<bar>"
      by (simp add: mult_le_cancel_right)
    then have "(of_int (2 ^ 53) :: rat) \<le> of_int \<bar>m\<bar>" by simp
    then have "2 ^ 53 \<le> \<bar>m\<bar>" by (simp only: of_int_le_iff)
    with assms have m: "\<bar>m\<bar> = 2 ^ 53" by simp
    then have "\<bar>x\<bar> = 2 powi (e + 53)" by (simp add: ax power_int_add)
    with b(1) have "(2::rat) powi k \<le> 2 powi (e + 53)" by simp
    then have "k \<le> e + 53" by (rule powi_two_leD)
    with ek have k: "k = e + 53" by simp
    have qq: "x / 2 powi (k - 52) = of_int m / 2"
      unfolding q by (simp add: k power_int_minus)
    from m have "m = 2 ^ 53 \<or> m = - (2 ^ 53)" by linarith
    then have "(of_int m :: rat) / 2 = of_int (m div 2)" by auto
    with qq show ?thesis by metis
  qed
  then obtain j where j: "x / 2 powi (k - 52) = of_int j" ..
  have "toDouble x = x" using b j by (rule toDouble_exactI)
  then show ?thesis by (simp add: x_def)
qed

lemma toDouble_of_int:
  "\<bar>m\<bar> \<le> 2 ^ 53 \<Longrightarrow> toDouble (of_int m) = of_int m"
  using toDouble_dyadic [of m 0] by simp

lemma toDouble_error: "\<bar>toDouble x - x\<bar> * 2 ^ 53 \<le> \<bar>x\<bar>"
proof (cases "x = 0")
  case True
  then show ?thesis by simp
next
  case False
  define s where "s = (2::rat) powi (bexp x - 52)"
  have s: "0 < s" unfolding s_def by (rule zero_less_power_int) simp
  have td: "toDouble x = of_int (roundHalfEven (x / s)) * s"
    using False by (simp add: toDouble_def Let_def s_def)
  have "toDouble x - x = (of_int (roundHalfEven (x / s)) - x / s) * s"
    using s by (simp add: td field_simps)
  then have "\<bar>toDouble x - x\<bar> = \<bar>of_int (roundHalfEven (x / s)) - x / s\<bar> * s"
    using s by (simp add: abs_mult)
  also have "\<dots> \<le> 1 / 2 * s"
    using roundHalfEven_error [of "x / s"] s by (simp add: mult_right_mono)
  finally have "\<bar>toDouble x - x\<bar> * 2 ^ 53 \<le> 2 ^ 52 * s" by simp
  also have "\<dots> = 2 powi bexp x" by (subst powi_scale) (simp add: s_def)
  also have "\<dots> \<le> \<bar>x\<bar>" using bexp_bounds [OF False] by simp
  finally show ?thesis .
qed

lemma toDouble_evalI:
  assumes "2 powi k \<le> \<bar>x\<bar>" "\<bar>x\<bar> < 2 powi (k + 1)"
    and "\<bar>x / 2 powi (k - 52) - of_int m\<bar> < 1 / 2"
    and "y = of_int m * 2 powi (k - 52)"
  shows "toDouble x = y"
  unfolding assms(4) using assms(1-3) by (rule toDouble_eqI)

lemma toDouble_Ints: "x \<in> \<int> \<Longrightarrow> \<bar>x\<bar> \<le> 2 ^ 53 \<Longrightarrow> toDouble x = x"
proof -
  assume "x \<in> \<int>" and b: "\<bar>x\<bar> \<le> 2 ^ 53"
  then obtain m where m: "x = of_int m" by (auto elim: Ints_cases)
  have "(of_int \<bar>m\<bar> :: rat) \<le> of_int (2 ^ 53)" using b by (simp add: m)
  then have "\<bar>m\<bar> \<le> 2 ^ 53" by (simp only: of_int_le_iff)
  then show ?thesis unfolding m by (rule toDouble_of_int)
qed

lemma roundHalfEven_tie:
  assumes "\<bar>q - of_int m\<bar> = 1 / 2" "even m"
  shows "roundHalfEven q = m"
proof -
  consider "q = of_int m - 1 / 2" | "q = of_int m + 1 / 2" using assms(1) by (auto simp: abs_if split: if_splits)
  then show ?thesis
  proof cases
    case 1
    then have "q = of_int (m - 1) + 1 / 2" by simp
    then have "\<lfloor>q\<rfloor> = m - 1" by (simp add: floor_eq_iff)
    then show ?thesis using 1 assms(2) by (simp add: roundHalfEven_def Let_def)
  next
    case 2
    then have "\<lfloor>q\<rfloor> = m" by (simp add: floor_eq_iff)
    then show ?thesis using 2 assms(2) by (simp add: roundHalfEven_def Let_def)
  qed
qed

lemma toDouble_evalI_tie:
  assumes "2 powi k \<le> \<bar>x\<bar>" "\<bar>x\<bar> < 2 powi (k + 1)"
    and "\<bar>x / 2 powi (k - 52) - of_int m\<bar> = 1 / 2" "even m"
    and "y = of_int m * 2 powi (k - 52)"
  shows "toDouble x = y"
proof -
  have k: "bexp x = k" using assms(1,2) by (rule bexp_unique)
  have nz: "x \<noteq> 0"
  proof
    assume "x = 0"
    with assms(1) have "(2::rat) powi k \<le> 0" by simp
    moreover have "0 < (2::rat) powi k" by (rule zero_less_power_int) simp
    ultimately show False by linarith
  qed
  show ?thesis
    using nz by (simp add: toDouble_def Let_def k roundHalfEven_tie [OF assms(3,4)] assms(5))
qed

section \<open>Integer-valued doubles and sorting\<close>

lemma dint_exact: "\<bar>n\<bar> \<le> 2 ^ 53 \<Longrightarrow> dint n = n"
  unfolding dint_def by (simp only: toDouble_of_int floor_of_int)

lemma dint_mono: "a \<le> b \<Longrightarrow> dint a \<le> dint b"
  unfolding dint_def by (intro floor_mono toDouble_mono) simp

lemma dint_ge: "\<bar>h\<bar> \<le> 2 ^ 53 \<Longrightarrow> h \<le> n \<Longrightarrow> h \<le> dint n"
  using dint_mono [of h n] by (simp add: dint_exact)

lemma dint_le: "\<bar>h\<bar> \<le> 2 ^ 53 \<Longrightarrow> n \<le> h \<Longrightarrow> dint n \<le> h"
  using dint_mono [of n h] by (simp add: dint_exact)

lemma dint_le_iff:
  assumes "\<bar>h\<bar> < 2 ^ 53"
  shows "dint n \<le> h \<longleftrightarrow> n \<le> h"
proof
  assume "n \<le> h"
  then show "dint n \<le> h" using assms by (intro dint_le) simp_all
next
  assume le: "dint n \<le> h"
  show "n \<le> h"
  proof (rule ccontr)
    assume "\<not> n \<le> h"
    then have "h + 1 \<le> n" by simp
    moreover have "\<bar>h + 1\<bar> \<le> 2 ^ 53" using assms by simp
    ultimately have "h + 1 \<le> dint n" by (intro dint_ge)
    with le show False by simp
  qed
qed

lemma dint_pos_iff: "0 < dint n \<longleftrightarrow> 0 < n"
  using dint_le_iff [of 0 n] by auto

lemma isub_pos_iff: "0 < isub a b \<longleftrightarrow> b < a"
  by (simp add: isub_def dint_pos_iff)

lemma dsub_pos_iff: "0 < dsub a b \<longleftrightarrow> b < a"
proof (cases "b < a")
  case True
  then show ?thesis using toDouble_pos [of "a - b"] by (simp add: dsub_def)
next
  case False
  then have "toDouble (a - b) \<le> 0"
    using toDouble_neg [of "a - b"] by (cases "a = b") simp_all
  with False show ?thesis by (simp add: dsub_def)
qed

lemma insertBy_insort_key: "insertBy (\<lambda>a b. f b < f a) x xs = insort_key f x xs"
  by (induction xs) auto

lemma sortBy_sort_key: "sortBy (\<lambda>a b. f b < f a) xs = sort_key f xs"
  by (induction xs) (simp_all add: sortBy_def insertBy_insort_key)

lemma sortBy_timestamp:
  "sortBy (\<lambda>a b. 0 < isub (timestamp a) (timestamp b)) xs = sort_key timestamp xs"
  by (simp add: isub_pos_iff sortBy_sort_key)

lemma sortBy_values: "sortBy (\<lambda>a b. 0 < dsub a b) xs = sort xs"
  using sortBy_sort_key [of "\<lambda>x. x" xs] by (simp add: dsub_pos_iff)

lemma mset_insertBy [simp]: "mset (insertBy gt x xs) = add_mset x (mset xs)"
  by (induction xs) auto

lemma mset_sortBy [simp]: "mset (sortBy gt xs) = mset xs"
  by (induction xs) (simp_all add: sortBy_def)

lemma set_sortBy [simp]: "set (sortBy gt xs) = set xs"
  by (metis mset_sortBy set_mset_mset)

lemma length_sortBy [simp]: "length (sortBy gt xs) = length xs"
  by (metis mset_sortBy size_mset)

lemma map_insertBy:
  assumes "\<And>a b. gt' (f a) (f b) = gt a b"
  shows "map f (insertBy gt x xs) = insertBy gt' (f x) (map f xs)"
  by (induction xs) (simp_all add: assms)

lemma map_sortBy:
  assumes "\<And>a b. gt' (f a) (f b) = gt a b"
  shows "map f (sortBy gt xs) = sortBy gt' (map f xs)"
  by (induction xs) (simp_all add: sortBy_def map_insertBy [of gt' f gt, OF assms])

lemma floor_ddiv:
  assumes "w \<noteq> 0" "\<bar>t\<bar> < 2 ^ 53"
  shows "\<lfloor>ddiv (of_int t) (of_int w)\<rfloor> = t div w"
proof -
  define q where "q = (of_int t :: rat) / of_int w"
  define n where "n = t div w"
  have fl: "\<lfloor>q\<rfloor> = n" by (simp add: q_def n_def floor_divide_of_int_eq)
  have nq: "of_int n \<le> q" "q < of_int n + 1" using fl by linarith+
  have aw: "0 < (of_int \<bar>w\<bar> :: rat)" using assms(1) by simp
  have aq: "\<bar>q\<bar> * of_int \<bar>w\<bar> = of_int \<bar>t\<bar>"
    using assms(1) by (simp add: q_def)
  have "\<bar>q\<bar> \<le> \<bar>q\<bar> * of_int \<bar>w\<bar>"
  proof -
    have "1 \<le> \<bar>w\<bar>" using assms(1) by simp
    then have "(1::rat) \<le> of_int \<bar>w\<bar>" by (simp only: of_int_1_le_iff)
    then show ?thesis by (metis abs_ge_zero mult.right_neutral mult_left_mono)
  qed
  then have qb: "\<bar>q\<bar> \<le> of_int \<bar>t\<bar>" by (simp only: aq)
  have tb: "(of_int \<bar>t\<bar> :: rat) < 2 ^ 53" using assms(2)
    by (metis of_int_less_iff of_int_numeral of_int_power)
  have nb: "\<bar>n\<bar> \<le> 2 ^ 53"
  proof -
    have "- (2 ^ 53) < q" "q < 2 ^ 53" using qb tb by linarith+
    then have "- (2 ^ 53) \<le> \<lfloor>q\<rfloor>" "\<lfloor>q\<rfloor> < 2 ^ 53"
      by (simp_all add: le_floor_iff floor_less_iff)
    then show ?thesis by (simp add: fl)
  qed
  have lo: "of_int n \<le> toDouble q"
    using toDouble_mono [OF nq(1)] by (simp only: toDouble_of_int [OF nb])
  have hi: "toDouble q < of_int n + 1"
  proof -
    have eq: "(of_int n + 1 - q) * of_int \<bar>w\<bar> = of_int ((n + 1) * \<bar>w\<bar> - t * sgn w)"
      using assms(1) by (simp add: q_def algebra_simps abs_if sgn_if)
    have gap: "1 \<le> (of_int n + 1 - q) * of_int \<bar>w\<bar>"
    proof -
      have "0 < (of_int n + 1 - q) * of_int \<bar>w\<bar>" using nq(2) aw by simp
      then have "0 < (of_int ((n + 1) * \<bar>w\<bar> - t * sgn w) :: rat)" by (simp only: eq)
      then have "0 < (n + 1) * \<bar>w\<bar> - t * sgn w" by (simp only: of_int_0_less_iff)
      then have "1 \<le> (n + 1) * \<bar>w\<bar> - t * sgn w" by simp
      then have "(1::rat) \<le> of_int ((n + 1) * \<bar>w\<bar> - t * sgn w)" by (simp only: of_int_1_le_iff)
      then show ?thesis by (simp only: eq)
    qed
    have "\<bar>toDouble q - q\<bar> * 2 ^ 53 \<le> \<bar>q\<bar>" by (rule toDouble_error)
    then have "\<bar>toDouble q - q\<bar> * 2 ^ 53 * of_int \<bar>w\<bar> \<le> \<bar>q\<bar> * of_int \<bar>w\<bar>"
      using aw by (simp add: mult_right_mono)
    then have "\<bar>toDouble q - q\<bar> * 2 ^ 53 * of_int \<bar>w\<bar> < 2 ^ 53" using aq tb by linarith
    then have "\<bar>toDouble q - q\<bar> * of_int \<bar>w\<bar> < 1" by simp
    with gap have "\<bar>toDouble q - q\<bar> * of_int \<bar>w\<bar> < (of_int n + 1 - q) * of_int \<bar>w\<bar>" by linarith
    then have "\<bar>toDouble q - q\<bar> < of_int n + 1 - q" using aw by (simp add: mult_less_cancel_right)
    then show ?thesis by linarith
  qed
  have "\<lfloor>toDouble q\<rfloor> = n" using lo hi by (simp add: floor_eq_iff)
  then show ?thesis by (simp add: ddiv_def q_def n_def)
qed

section \<open>The percentile index\<close>

lemma toDouble_near_int:
  assumes "x \<noteq> 0" "\<bar>x\<bar> < 2 ^ 53" "\<bar>x - of_int N\<bar> * 2 ^ 54 < \<bar>x\<bar>"
  shows "toDouble x = of_int N"
proof -
  define k where "k = bexp x"
  from bexp_bounds [OF assms(1)]
  have b: "2 powi k \<le> \<bar>x\<bar>" "\<bar>x\<bar> < 2 powi (k + 1)" by (simp_all add: k_def)
  have "(2::rat) powi k < 2 powi 53" using b(1) assms(2) by simp
  then have k: "k < 53" by (rule powi_two_lessD)
  define j where "j = nat (52 - k)"
  have s: "(2::rat) powi (k - 52) = 1 / 2 ^ j"
    using k by (simp add: j_def power_int_def field_simps)
  have "\<bar>x - of_int N\<bar> * 2 ^ 54 < 2 ^ 53 * 2 powi (k - 52)"
    using assms(3) b(2) by (simp only: powi_scale_Suc)
  then have e: "\<bar>x - of_int N\<bar> * 2 ^ j < 1 / 2"
    by (simp add: s field_simps)
  have "x / 2 powi (k - 52) - of_int (N * 2 ^ j) = (x - of_int N) * 2 ^ j"
    by (simp add: s algebra_simps)
  then have "\<bar>x / 2 powi (k - 52) - of_int (N * 2 ^ j)\<bar> < 1 / 2"
    using e by (simp add: abs_mult)
  with b have "toDouble x = of_int (N * 2 ^ j) * 2 powi (k - 52)" by (rule toDouble_eqI)
  then show ?thesis by (simp add: s)
qed

lemma toDouble_095: "toDouble (95 / 100) = 4278419646001971 / 4503599627370496"
  by (rule toDouble_evalI [where k = "-1" and m = 8556839292003942]) simp_all

lemma toDouble_19_20: "toDouble (19 / 20) = 4278419646001971 / 4503599627370496"
  by (rule toDouble_evalI [where k = "-1" and m = 8556839292003942]) simp_all

lemma p95Index_eq:
  assumes "n \<le> 2 ^ 32"
  shows "p95Index n = int ((19 * n) div 20)"
proof (cases "n = 0")
  case True
  then show ?thesis by (simp add: p95Index_def dmul_def)
next
  case False
  define c :: rat where "c = 4278419646001971 / 4503599627370496"
  define x :: rat where "x = of_nat n * c"
  define N where "N = (19 * n) div 20"
  define r where "r = (19 * n) mod 20"
  have nr: "19 * n = 20 * N + r" "r < 20" by (simp_all add: N_def r_def)
  have nb: "(of_nat n :: rat) \<le> 2 ^ 32" using assms
    by (metis of_nat_le_iff of_nat_numeral of_nat_power)
  have npos: "0 < (of_nat n :: rat)" using False by simp
  have x19: "x = (19 * of_nat n) / 20 - of_nat n / (5 * 2 ^ 52)"
    by (simp add: x_def c_def field_simps)
  have eq: "(19 * of_nat n :: rat) = 20 * of_nat N + of_nat r"
    using nr(1) by (metis of_nat_add of_nat_mult of_nat_numeral)
  have Nb: "(of_nat N :: rat) \<le> 2 ^ 32" using eq nb by linarith
  have "N \<le> n" using nr(1) by linarith
  then have Ni: "int N \<le> 2 ^ 32" using assms by simp
  have key: "toDouble x = of_nat N \<or> (of_nat N \<le> toDouble x \<and> toDouble x \<le> of_nat N + 31 / 32)"
  proof (cases "r = 0")
    case True
    then have xN: "x = of_nat N - of_nat n / (5 * 2 ^ 52)" using eq by (simp add: x19)
    have nN: "(of_nat n :: rat) = 20 * of_nat N / 19" using eq True by simp
    have Npos: "0 < (of_nat N :: rat)" using nN npos by simp
    have xpos: "0 < x" using Npos by (simp add: xN nN)
    have "toDouble x = of_int (int N)"
    proof (rule toDouble_near_int)
      show "x \<noteq> 0" using xpos by simp
      show "\<bar>x\<bar> < 2 ^ 53" using xpos Nb npos by (simp add: xN)
      show "\<bar>x - of_int (int N)\<bar> * 2 ^ 54 < \<bar>x\<bar>"
        using Npos xpos by (simp add: xN nN)
    qed
    then show ?thesis by simp
  next
    case False
    then have r: "1 \<le> (of_nat r :: rat)" "(of_nat r :: rat) \<le> 19"
      using nr(2) by (simp_all add: Suc_leI)
    have xr: "x = of_nat N + of_nat r / 20 - of_nat n / (5 * 2 ^ 52)"
      using eq by (simp add: x19)
    have lo: "of_int (int N) \<le> x" using r(1) nb by (simp add: xr field_simps)
    have hi: "x \<le> of_int (32 * int N + 31) * 2 powi (- 5)"
      using r(2) npos by (simp add: xr field_simps)
    have "toDouble (of_int (int N)) \<le> toDouble x" using lo by (rule toDouble_mono)
    moreover have "toDouble (of_int (int N)) = of_int (int N)"
      using Ni by (intro toDouble_of_int) simp
    moreover have "toDouble x \<le> toDouble (of_int (32 * int N + 31) * 2 powi (- 5))"
      using hi by (rule toDouble_mono)
    moreover have "toDouble (of_int (32 * int N + 31) * 2 powi (- 5))
        = of_int (32 * int N + 31) * 2 powi (- 5)"
      using Ni by (intro toDouble_dyadic) simp
    ultimately show ?thesis by (simp add: field_simps)
  qed
  have "\<lfloor>toDouble x\<rfloor> = int N"
    using key by (auto simp: floor_eq_iff)
  then show ?thesis
    by (simp add: p95Index_def dmul_def toDouble_19_20 x_def c_def N_def)
qed

section \<open>Properties of the grouping\<close>

lemma addToBucket_fst_set: "fst ` set (addToBucket k v bs) = insert k (fst ` set bs)"
proof (induction bs)
  case Nil
  then show ?case by simp
next
  case (Cons b bs)
  obtain k' vs where b: "b = (k', vs)" by (cases b)
  show ?case
  proof (cases "k' = k")
    case True
    then show ?thesis by (simp add: b)
  next
    case False
    then show ?thesis by (simp add: b Cons.IH insert_commute)
  qed
qed

lemma addToBucket_distinct:
  "distinct (map fst bs) \<Longrightarrow> distinct (map fst (addToBucket k v bs))"
  by (induction bs) (auto simp: addToBucket_fst_set)

lemma map_of_addToBucket:
  "map_of (addToBucket k v bs) =
     (map_of bs)(k \<mapsto> (case map_of bs k of None \<Rightarrow> [v] | Some vs \<Rightarrow> vs @ [v]))"
  by (induction bs) (auto simp: fun_eq_iff)

lemma addToBucket_mset:
  "(\<Sum>b\<leftarrow>addToBucket k v bs. mset (snd b)) = add_mset v (\<Sum>b\<leftarrow>bs. mset (snd b))"
  by (induction bs) auto

lemma group_fold_keys:
  "fst ` set (foldl (\<lambda>bs e. addToBucket (K e) (V e) bs) bs es) = fst ` set bs \<union> K ` set es"
  by (induction es arbitrary: bs) (simp_all add: addToBucket_fst_set)

lemma group_fold_distinct:
  "distinct (map fst bs) \<Longrightarrow>
   distinct (map fst (foldl (\<lambda>bs e. addToBucket (K e) (V e) bs) bs es))"
  by (induction es arbitrary: bs) (simp_all add: addToBucket_distinct)

lemma group_fold_mset:
  "(\<Sum>b\<leftarrow>foldl (\<lambda>bs e. addToBucket (K e) (V e) bs) bs es. mset (snd b))
     = (\<Sum>b\<leftarrow>bs. mset (snd b)) + mset (map V es)"
  by (induction es arbitrary: bs) (simp_all add: addToBucket_mset)

lemma group_fold_map_of:
  "map_of (foldl (\<lambda>bs e. addToBucket (K e) (V e) bs) bs es) k =
     (case map_of bs k of
        None \<Rightarrow> (if filter (\<lambda>e. K e = k) es = [] then None
                 else Some (map V (filter (\<lambda>e. K e = k) es)))
      | Some vs \<Rightarrow> Some (vs @ map V (filter (\<lambda>e. K e = k) es)))"
  by (induction es arbitrary: bs) (auto simp: map_of_addToBucket split: option.splits)

lemma groupValues_distinct: "distinct (map fst (groupValues events w))"
  unfolding groupValues_def by (rule group_fold_distinct) simp

lemma groupValues_keys:
  "set (map fst (groupValues events w)) = (\<lambda>e. bucketKey (timestamp e) w) ` set events"
  unfolding groupValues_def set_map by (simp only: group_fold_keys) simp

lemma groupValues_mset:
  "(\<Sum>b\<leftarrow>groupValues events w. mset (snd b)) = mset (map value_e events)"
  unfolding groupValues_def by (simp only: group_fold_mset) simp

lemma groupValues_member:
  "(k, vs) \<in> set (groupValues events w) \<longleftrightarrow>
     vs \<noteq> [] \<and> vs = map value_e (filter (\<lambda>e. bucketKey (timestamp e) w = k) events)"
proof -
  have "(k, vs) \<in> set (groupValues events w) \<longleftrightarrow> map_of (groupValues events w) k = Some vs"
    using groupValues_distinct by simp
  also have "\<dots> \<longleftrightarrow> vs \<noteq> [] \<and> vs = map value_e (filter (\<lambda>e. bucketKey (timestamp e) w = k) events)"
    unfolding groupValues_def by (simp only: group_fold_map_of) auto
  finally show ?thesis .
qed


lemma bucketStats_simps:
  "timestamp_a (bucketStats (k, vs)) = k"
  "count_a (bucketStats (k, vs)) = length vs"
  "sum_a (bucketStats (k, vs)) = foldl dadd 0 (sort vs)"
  "avg_a (bucketStats (k, vs)) = ddiv (foldl dadd 0 (sort vs)) (of_nat (length vs))"
  "min_a (bucketStats (k, vs)) = sort vs ! 0"
  "max_a (bucketStats (k, vs)) = sort vs ! (length vs - 1)"
  "p95_a (bucketStats (k, vs)) = sort vs ! nat (min (p95Index (length vs)) (int (length vs) - 1))"
  by (simp_all add: bucketStats_def Let_def sortBy_values)

lemma groupValues_Nil [simp]: "groupValues [] w = []"
  by (simp add: groupValues_def)

lemma aggregateEvents_Nil [simp]: "aggregateEvents [] w = []"
  by (simp add: aggregateEvents_def)

lemma mset_aggregateEvents:
  "mset (aggregateEvents events w) = mset (map bucketStats (groupValues events w))"
  by (cases events) (simp_all add: aggregateEvents_def)

lemma set_aggregateEvents:
  "set (aggregateEvents events w) = bucketStats ` set (groupValues events w)"
  using mset_aggregateEvents [of events w] by (metis set_mset_mset set_map)

lemma aggregateEvents_member:
  "b \<in> set (aggregateEvents events w) \<longleftrightarrow>
     (\<exists>vs. vs \<noteq> []
        \<and> vs = map value_e (filter (\<lambda>e. bucketKey (timestamp e) w = timestamp_a b) events)
        \<and> b = bucketStats (timestamp_a b, vs))"
proof
  assume "b \<in> set (aggregateEvents events w)"
  then obtain k vs where kv: "(k, vs) \<in> set (groupValues events w)" "b = bucketStats (k, vs)"
    by (auto simp: set_aggregateEvents)
  then have "timestamp_a b = k" by (simp add: bucketStats_simps)
  with kv show "\<exists>vs. vs \<noteq> []
        \<and> vs = map value_e (filter (\<lambda>e. bucketKey (timestamp e) w = timestamp_a b) events)
        \<and> b = bucketStats (timestamp_a b, vs)"
    by (auto simp: groupValues_member)
next
  assume "\<exists>vs. vs \<noteq> []
        \<and> vs = map value_e (filter (\<lambda>e. bucketKey (timestamp e) w = timestamp_a b) events)
        \<and> b = bucketStats (timestamp_a b, vs)"
  then obtain vs where vs: "vs \<noteq> []"
      "vs = map value_e (filter (\<lambda>e. bucketKey (timestamp e) w = timestamp_a b) events)"
      "b = bucketStats (timestamp_a b, vs)" by blast
  then have "(timestamp_a b, vs) \<in> set (groupValues events w)"
    by (simp add: groupValues_member)
  then show "b \<in> set (aggregateEvents events w)"
    using vs(3) by (metis image_eqI set_aggregateEvents)
qed

lemma aggregateEvents_timestamps_mset:
  "mset (map timestamp_a (aggregateEvents events w)) = mset (map fst (groupValues events w))"
proof -
  have "mset (map timestamp_a (aggregateEvents events w))
      = image_mset timestamp_a (mset (map bucketStats (groupValues events w)))"
    by (simp add: mset_aggregateEvents)
  also have "\<dots> = mset (map (\<lambda>b. timestamp_a (bucketStats b)) (groupValues events w))"
    by (simp add: multiset.map_comp comp_def)
  also have "(\<lambda>b. timestamp_a (bucketStats b)) = fst"
    by (rule ext) (simp add: bucketStats_simps split_paired_all)
  finally show ?thesis .
qed

lemma aggregateEvents_timestamps_distinct:
  "distinct (map timestamp_a (aggregateEvents events w))"
  using aggregateEvents_timestamps_mset [of events w] groupValues_distinct [of events w]
  by (metis mset_eq_imp_distinct_iff)

lemma aggregateEvents_timestamps_set:
  "set (map timestamp_a (aggregateEvents events w)) = (\<lambda>e. bucketKey (timestamp e) w) ` set events"
  using aggregateEvents_timestamps_mset [of events w] groupValues_keys [of events w]
  by (metis set_mset_mset)

lemma size_sum_buckets: "size (\<Sum>b\<leftarrow>bs. mset (snd b)) = (\<Sum>b\<leftarrow>bs. length (snd b))"
  by (induction bs) simp_all

lemma aggregateEvents_count_sum:
  "sum_list (map count_a (aggregateEvents events w)) = length events"
proof -
  have "sum_list (map count_a (aggregateEvents events w))
      = sum_mset (image_mset count_a (mset (aggregateEvents events w)))"
    by (metis mset_map sum_mset_sum_list)
  also have "\<dots> = sum_mset (mset (map (\<lambda>b. count_a (bucketStats b)) (groupValues events w)))"
    by (simp add: mset_aggregateEvents multiset.map_comp comp_def)
  also have "(\<lambda>b. count_a (bucketStats b)) = (\<lambda>b. length (snd b))"
    by (rule ext) (simp add: bucketStats_simps split_paired_all)
  also have "sum_mset (mset (map (\<lambda>b. length (snd b)) (groupValues events w)))
      = (\<Sum>b\<leftarrow>groupValues events w. length (snd b))"
    by (rule sum_mset_sum_list)
  also have "\<dots> = size (mset (map value_e events))"
    by (simp only: size_sum_buckets [symmetric] groupValues_mset)
  finally show ?thesis by simp
qed

lemma bucketKey_floor:
  assumes "w \<noteq> 0" "\<bar>t\<bar> \<le> 2 ^ 52" "\<bar>w\<bar> \<le> 2 ^ 52"
  shows "bucketKey t w = Num ((t div w) * w)"
proof -
  have fl: "\<lfloor>ddiv (of_int t) (of_int w)\<rfloor> = t div w"
    using assms by (intro floor_ddiv) simp_all
  have "t div w * w = t - t mod w" by (simp add: minus_mod_eq_div_mult)
  moreover have "\<bar>t mod w\<bar> \<le> \<bar>w\<bar>"
    using assms(1) by (cases "0 < w") (simp_all add: abs_mod_less less_imp_le)
  moreover have "(2::int) ^ 53 = 2 ^ 52 + 2 ^ 52" by simp
  ultimately have "\<bar>t div w * w\<bar> \<le> 2 ^ 53" using assms(2,3) by linarith
  then have "imul (t div w) w = t div w * w" by (simp add: imul_def dint_exact)
  then show ?thesis using assms(1) by (simp add: bucketKey_def fl)
qed

lemma floor_95_percent: "\<lfloor>(of_nat n :: rat) * (95 / 100)\<rfloor> = int ((19 * n) div 20)"
proof -
  have "(of_nat n :: rat) * (95 / 100) = of_int (int (19 * n)) / of_int 20" by simp
  then have "\<lfloor>(of_nat n :: rat) * (95 / 100)\<rfloor> = int (19 * n) div 20"
    by (simp only: floor_divide_of_int_eq)
  then show ?thesis by (simp only: zdiv_int of_nat_numeral)
qed

lemma single_bucket:
  assumes "events \<noteq> []" "\<forall>e \<in> set events. bucketKey (timestamp e) w = k"
  shows "\<exists>b. aggregateEvents events w = [b] \<and> timestamp_a b = k"
proof -
  have s: "set (map timestamp_a (aggregateEvents events w)) = {k}"
    using assms by (simp only: aggregateEvents_timestamps_set) (cases events, auto)
  have "length (map timestamp_a (aggregateEvents events w)) = card {k}"
    using aggregateEvents_timestamps_distinct [of events w] s by (metis distinct_card)
  then have "length (aggregateEvents events w) = 1" by simp
  then obtain b where b: "aggregateEvents events w = [b]"
    by (cases "aggregateEvents events w") auto
  with s have "timestamp_a b = k" by simp
  with b show ?thesis by blast
qed

lemma valueEvent_simps [simp]:
  "timestamp (valueEvent t v) = t" "value_e (valueEvent t v) = v"
  by (simp_all add: valueEvent_def)











lemma bucketStats_single:
  assumes "v \<in> \<int>" "\<bar>v\<bar> \<le> 2 ^ 53"
  shows "bucketStats (k, [v])
     = \<lparr>timestamp_a = k, count_a = 1, avg_a = v, sum_a = v, min_a = v, max_a = v, p95_a = v\<rparr>"
proof -
  have s: "dadd 0 v = v" using assms by (simp add: dadd_def toDouble_Ints)
  have a: "ddiv v 1 = v" using assms by (simp add: ddiv_def toDouble_Ints)
  have p: "p95Index 1 = 0" using p95Index_eq [of 1] by simp
  show ?thesis
    by (simp add: bucketStats_def Let_def sortBy_def s a p)
qed

lemma aggregateEvents_single:
  "aggregateEvents [e] w = [bucketStats (bucketKey (timestamp e) w, [value_e e])]"
  by (simp add: aggregateEvents_def groupValues_def sortBy_def)



text \<open>
  Beyond \<open>2 ^ 52\<close> the quotient and the product of the bucket key round:
  \<open>- (2 ^ 53 - 1) / 3\<close> rounds down to a half, and \<open>- (2 ^ 53 + 1)\<close> is not a double.
\<close>

lemma large_quotient:
  "ddiv (- 9007199254740991) 3 = - (6004799503160661 / 2)"
  unfolding ddiv_def
  by (rule toDouble_evalI [where k = 51 and m = "- 6004799503160661"]) simp_all

lemma large_product: "dint (- 9007199254740993) = - 9007199254740992"
proof -
  have "toDouble (- 9007199254740993) = - 9007199254740992"
    by (rule toDouble_evalI_tie [where k = 53 and m = "- 4503599627370496"]) simp_all
  then show ?thesis by (simp add: dint_def)
qed

lemma large_floor: "\<lfloor>- (6004799503160661 / 2 :: rat)\<rfloor> = - 3002399751580331"
  by (simp add: floor_eq_iff)
section \<open>Properties of the random source and the generator loop\<close>

lemma ddiv_u32:
  assumes "x \<in> \<int>" "0 \<le> x" "x < 4294967296"
  shows "ddiv x 4294967296 = x / 4294967296"
proof -
  from assms(1) obtain m where m: "x = of_int m" by (auto elim: Ints_cases)
  have "(of_int m :: rat) < of_int 4294967296" "(of_int 0 :: rat) \<le> of_int m"
    using assms(2,3) by (simp_all add: m)
  then have "m < 4294967296" "0 \<le> m" by (simp_all only: of_int_less_iff of_int_le_iff)
  then have "\<bar>m\<bar> \<le> 2 ^ 53" by simp
  then have "toDouble (of_int m * 2 powi (- 32)) = of_int m * 2 powi (- 32)"
    by (rule toDouble_dyadic)
  then show ?thesis by (simp add: ddiv_def m power_int_minus field_simps)
qed

lemma ddiv_u32_nat:
  "k < 4294967296 \<Longrightarrow> ddiv (of_nat k) 4294967296 = of_nat k / 4294967296"
proof -
  assume "k < 4294967296"
  then have "(of_nat k :: rat) < of_nat 4294967296" by (simp only: of_nat_less_iff)
  then show ?thesis by (intro ddiv_u32) simp_all
qed

lemma unat_u32: "unat (w :: 32 word) < 4294967296"
  using unsigned_less [of w, where ?'a = nat] by simp

lemma rng_fst_ex: "\<exists>k<4294967296. fst (rng s) = of_nat k / 4294967296"
proof -
  have "\<exists>w :: 32 word. fst (rng s) = ddiv (of_nat (unat w)) 4294967296"
    unfolding rng_def Let_def fst_conv by (rule exI) (rule refl)
  then obtain w :: "32 word" where "fst (rng s) = ddiv (of_nat (unat w)) 4294967296" ..
  then have "fst (rng s) = of_nat (unat w) / 4294967296"
    by (simp only: ddiv_u32_nat [OF unat_u32])
  then show ?thesis using unat_u32 [of w] by blast
qed

lemma rng_range: "0 \<le> fst (rng s) \<and> fst (rng s) < 1"
proof -
  obtain k :: nat where k: "k < 4294967296" "fst (rng s) = of_nat k / 4294967296"
    using rng_fst_ex by blast
  from k(1) have "(of_nat k :: rat) < of_nat 4294967296" by (simp only: of_nat_less_iff)
  then show ?thesis by (simp add: k(2))
qed

lemma rng_snd: "snd (rng s) = iadd s 1831565813"
  by (simp add: rng_def Let_def)

lemma rngValues_range: "\<forall>v \<in> set (rngValues s n). 0 \<le> v \<and> v < 1"
proof (induction n arbitrary: s)
  case 0
  then show ?case by simp
next
  case (Suc n)
  show ?case using rng_range [of s] Suc.IH [of "snd (rng s)"] by (simp add: split_def Let_def)
qed

lemma genEvent_id:
  "id_e (fst (genEvent now st sp i seed)) = ''evt_'' @ toString36 (int i) @ ''_'' @ toString36 now"
  by (simp add: genEvent_def Let_def split_def)

lemma genEvent_clock:
  "snd (genEvent now st sp i seed) = snd (genEvent now' st sp i seed)"
  "(fst (genEvent now st sp i seed))\<lparr>id_e := x\<rparr> = (fst (genEvent now' st sp i seed))\<lparr>id_e := x\<rparr>"
  by (simp_all add: genEvent_def Let_def split_def)

lemma genEvent_timestamp:
  "\<exists>nt. 0 \<le> nt \<and> nt \<le> 1
     \<and> timestamp (fst (genEvent now st sp i seed)) = iadd st \<lfloor>dmul nt (of_int sp)\<rfloor>"
proof -
  have "\<exists>a. timestamp (fst (genEvent now st sp i seed))
      = iadd st \<lfloor>dmul (max 0 (min 1 a)) (of_int sp)\<rfloor>"
    unfolding genEvent_def Let_def split_def by (simp del: max.bounded_iff min.bounded_iff) blast
  then obtain a where a: "timestamp (fst (genEvent now st sp i seed))
      = iadd st \<lfloor>dmul (max 0 (min 1 a)) (of_int sp)\<rfloor>" ..
  have "0 \<le> max 0 (min 1 a)" "max 0 (min 1 a) \<le> 1" by simp_all
  with a show ?thesis by blast
qed

lemma generateLoop_length: "length (fst (generateLoop clock c st sp n i seed)) = n"
  by (induction n arbitrary: i seed) (simp_all add: Let_def split_def)

lemma generateLoop_timestamps:
  assumes "\<And>now i seed. P (timestamp (fst (genEvent now st sp i seed)))"
  shows "\<forall>e \<in> set (fst (generateLoop clock c st sp n i seed)). P (timestamp e)"
  by (induction n arbitrary: i seed) (simp_all add: Let_def split_def assms)

lemma generateLoop_clock:
  assumes "\<forall>k. i < k \<and> k \<le> i + n \<longrightarrow> clock1 k = clock2 k"
  shows "generateLoop clock1 c st sp n i seed = generateLoop clock2 c st sp n i seed"
  using assms
proof (induction n arbitrary: i seed)
  case 0
  then show ?case by simp
next
  case (Suc n)
  have c: "clock1 (Suc i) = clock2 (Suc i)" using Suc.prems by simp
  have "generateLoop clock1 c st sp n (Suc i) s' = generateLoop clock2 c st sp n (Suc i) s'" for s'
    using Suc.prems by (intro Suc.IH) simp
  then show ?case by (simp add: c)
qed

lemma generateLoop_strip:
  "map (id_e_update (\<lambda>_. x)) (fst (generateLoop clock1 c st sp n i seed))
     = map (id_e_update (\<lambda>_. x)) (fst (generateLoop clock2 c st sp n i seed))
   \<and> snd (generateLoop clock1 c st sp n i seed) = snd (generateLoop clock2 c st sp n i seed)"
proof (induction n arbitrary: i seed)
  case 0
  then show ?case by simp
next
  case (Suc n)
  have s: "snd (genEvent (clock1 (Suc i)) st sp i seed) = snd (genEvent (clock2 (Suc i)) st sp i seed)"
    by (rule genEvent_clock(1))
  have f: "(fst (genEvent (clock1 (Suc i)) st sp i seed))\<lparr>id_e := x\<rparr>
      = (fst (genEvent (clock2 (Suc i)) st sp i seed))\<lparr>id_e := x\<rparr>"
    by (rule genEvent_clock(2))
  show ?case
    using Suc.IH [of "Suc i" "snd (genEvent (clock2 (Suc i)) st sp i seed)"] f
    by (simp add: Let_def split_def s)
qed


lemma stripIds_sortBy:
  "stripIds (sortBy (\<lambda>a b. 0 < isub (timestamp a) (timestamp b)) xs)
     = sortBy (\<lambda>a b. 0 < isub (timestamp a) (timestamp b)) (stripIds xs)"
  unfolding stripIds_def by (rule map_sortBy) simp

lemma generateEvents_Inr:
  assumes "0 \<le> cnt" "cnt < 2 ^ 32"
  shows "generateEvents clock cnt st en =
     Inr (snd (generateLoop clock (nat cnt) st (isub en st) (nat cnt) 0 (clock 0)),
          sortBy (\<lambda>a b. 0 < isub (timestamp a) (timestamp b))
            (fst (generateLoop clock (nat cnt) st (isub en st) (nat cnt) 0 (clock 0))))"
  using assms by (simp add: generateEvents_def createRng_def Let_def split_def)

lemma generateEvents_Inl:
  assumes "cnt < 0 \<or> 2 ^ 32 \<le> cnt"
  shows "generateEvents clock cnt st en = Inl (RangeError ''Invalid array length'')"
  using assms by (auto simp: generateEvents_def)

lemma timestamp_bounds:
  assumes "\<bar>st\<bar> \<le> 2 ^ 52" "\<bar>en\<bar> \<le> 2 ^ 52" "0 \<le> nt" "nt \<le> 1"
  shows "min st en \<le> iadd st \<lfloor>dmul nt (of_int (isub en st))\<rfloor>
       \<and> iadd st \<lfloor>dmul nt (of_int (isub en st))\<rfloor> \<le> max st en"
proof -
  have p: "(2::int) ^ 53 = 2 ^ 52 + 2 ^ 52" by simp
  define sp where "sp = en - st"
  have spb: "\<bar>sp\<bar> \<le> 2 ^ 53" using assms(1,2) unfolding sp_def p by linarith
  have sub: "isub en st = sp" using spb by (simp add: isub_def dint_exact sp_def)
  have fsp: "toDouble (of_int sp) = of_int sp" using spb by (rule toDouble_of_int)
  define f where "f = \<lfloor>dmul nt (of_int sp)\<rfloor>"
  have fb: "min 0 sp \<le> f \<and> f \<le> max 0 sp"
  proof (cases "0 \<le> sp")
    case True
    then have "0 \<le> nt * of_int sp" "nt * of_int sp \<le> of_int sp"
      using assms(3,4) by (simp_all add: mult_left_le_one_le)
    then have "toDouble 0 \<le> toDouble (nt * of_int sp)" "toDouble (nt * of_int sp) \<le> toDouble (of_int sp)"
      by (simp_all only: toDouble_mono)
    then have "0 \<le> dmul nt (of_int sp)" "dmul nt (of_int sp) \<le> of_int sp"
      by (simp_all add: dmul_def fsp)
    then have "0 \<le> f" "f \<le> sp" unfolding f_def by (simp_all add: le_floor_iff floor_le_iff)
    then show ?thesis using True by simp
  next
    case False
    then have neg: "(of_int sp :: rat) \<le> 0" by simp
    have "nt * of_int sp \<le> 0" using assms(3) neg by (simp add: mult_nonneg_nonpos)
    moreover have "of_int sp \<le> nt * of_int sp"
    proof -
      have "(1 - nt) * of_int sp \<le> 0" using assms(4) neg by (simp add: mult_nonneg_nonpos)
      then show ?thesis by (simp add: algebra_simps)
    qed
    ultimately have "toDouble (nt * of_int sp) \<le> toDouble 0"
        "toDouble (of_int sp) \<le> toDouble (nt * of_int sp)"
      by (simp_all only: toDouble_mono)
    then have "dmul nt (of_int sp) \<le> 0" "of_int sp \<le> dmul nt (of_int sp)"
      by (simp_all add: dmul_def fsp)
    then have "f \<le> 0" "sp \<le> f" unfolding f_def by (simp_all add: le_floor_iff floor_le_iff)
    then show ?thesis using False by simp
  qed
  have "min st en \<le> st + f \<and> st + f \<le> max st en" using fb unfolding sp_def by linarith
  moreover from this have "\<bar>st + f\<bar> \<le> 2 ^ 53" using assms(1,2) unfolding p by linarith
  ultimately show ?thesis by (simp add: sub f_def [symmetric] iadd_def dint_exact)
qed

lemma toDouble_tenth: "toDouble (1 / 10) = 3602879701896397 / 36028797018963968"
  by (rule toDouble_evalI [where k = "- 4" and m = 7205759403792794]) simp_all

lemma rng_draw1: "rng 0 = (572152369 / 2147483648, 1831565813)"
  by (simp add: rng_def Let_def iadd_def dint_exact ddiv_u32)

lemma rng_draw2: "rng 1831565813 = (1416247 / 4294967296, 3663131626)"
  by (simp add: rng_def Let_def iadd_def dint_exact ddiv_u32)

lemma rng_draw3: "rng 3663131626 = (119868257 / 536870912, 5494697439)"
  by (simp add: rng_def Let_def iadd_def dint_exact ddiv_u32)

lemma rng_draw4: "rng 5494697439 = (156983361 / 1073741824, 7326263252)"
  by (simp add: rng_def Let_def iadd_def dint_exact ddiv_u32)

lemma rng_draw5: "rng 7326263252 = (501789429 / 1073741824, 9157829065)"
  by (simp add: rng_def Let_def iadd_def dint_exact ddiv_u32)

lemma rng_draw6: "rng 9157829065 = (2340967985 / 4294967296, 10989394878)"
  by (simp add: rng_def Let_def iadd_def dint_exact ddiv_u32)

lemma rng_draw7: "rng 10989394878 = (2642484575 / 4294967296, 12820960691)"
  by (simp add: rng_def Let_def iadd_def dint_exact ddiv_u32)

lemma rng_draw8: "rng 12820960691 = (1393685491 / 2147483648, 14652526504)"
  by (simp add: rng_def Let_def iadd_def dint_exact ddiv_u32)

lemma ex_spread: "dmul (156983361 / 1073741824) (3602879701896397 / 36028797018963968) = 2106995004722381 / 144115188075855872"
  unfolding dmul_def
  by (rule toDouble_evalI [where k = "- 7" and m = "8427980018889524"]) simp_all

lemma ex_offset: "dsub (501789429 / 1073741824) (1 / 2) = - (35081483 / 1073741824)"
  unfolding dsub_def
  by (rule toDouble_evalI [where k = "- 5" and m = "- 4708556943130624"]) simp_all

lemma ex_scaled: "dmul (- (35081483 / 1073741824)) (2106995004722381 / 144115188075855872) = - (4405767288163491 / 9223372036854775808)"
  unfolding dmul_def
  by (rule toDouble_evalI [where k = "- 12" and m = "- 8811534576326982"]) simp_all

lemma ex_normalized: "dadd (119868257 / 536870912) (- (4405767288163491 / 9223372036854775808)) = 8027012528460659 / 36028797018963968"
  unfolding dadd_def
  by (rule toDouble_evalI [where k = "- 3" and m = "8027012528460659"]) simp_all

lemma ex_product: "dmul (8027012528460659 / 36028797018963968) (- 1000) = - (3919439711162431 / 17592186044416)"
  unfolding dmul_def
  by (rule toDouble_evalI [where k = "7" and m = "- 7838879422324862"]) simp_all


lemma ex_floor: "\<lfloor>- (3919439711162431 / 17592186044416 :: rat)\<rfloor> = - 223"
  by (simp add: floor_eq_iff)

lemma ex_timestamp: "timestamp (fst (genEvent now 1000 (- 1000) 0 0)) = 777"
  by (simp add: genEvent_def Let_def split_def rng_draw1 rng_draw2 rng_draw3 rng_draw4 rng_draw5
      toDouble_tenth ex_spread ex_offset ex_scaled ex_normalized ex_product ex_floor
      iadd_def dint_exact)

lemma generateLoop_one:
  "fst (generateLoop clock c st sp (Suc 0) i seed) = [fst (genEvent (clock (Suc i)) st sp i seed)]"
  by (simp add: Let_def split_def)

lemma sortBy_single [simp]: "sortBy gt [x] = [x]"
  by (simp add: sortBy_def)

lemma toString36_1000: "toString36 1000 = ''rs''" "toString36 1001 = ''rt''" "toString36 0 = ''0''"
  by (simp_all add: toString36_def natToString36.simps digit36_def)

lemma pick_index:
  assumes "xs \<noteq> []" "length xs \<le> 2 ^ 20"
  shows "nat \<lfloor>dmul (fst (rng s)) (of_nat (length xs))\<rfloor> < length xs"
proof -
  define L where "L = length xs"
  have Lpos: "0 < L" using assms(1) by (simp add: L_def)
  obtain k :: nat where k: "k < 4294967296" "fst (rng s) = of_nat k / 4294967296"
    using rng_fst_ex by blast
  have "k * L \<le> 2 ^ 32 * 2 ^ 20" using k(1) assms(2) unfolding L_def by (intro mult_mono) simp_all
  then have "int (k * L) \<le> int (2 ^ 32 * 2 ^ 20)" by (simp only: of_nat_le_iff)
  then have kl: "\<bar>int (k * L)\<bar> \<le> 2 ^ 53" by (simp del: of_nat_mult)
  have x: "fst (rng s) * of_nat L = of_int (int (k * L)) * 2 powi (- 32)"
    by (simp add: k(2) power_int_minus field_simps)
  have td: "toDouble (of_int (int (k * L)) * 2 powi (- 32)) = of_int (int (k * L)) * 2 powi (- 32)"
    using kl by (rule toDouble_dyadic)
  have x2: "(of_int (int (k * L)) :: rat) * 2 powi (- 32) = of_int (int (k * L)) / of_int 4294967296"
    by (simp add: power_int_minus field_simps)
  have d: "dmul (fst (rng s)) (of_nat L) = of_int (int (k * L)) / of_int 4294967296"
    unfolding dmul_def x td by (rule x2)
  have "\<lfloor>dmul (fst (rng s)) (of_nat L)\<rfloor> = int (k * L) div 4294967296"
    unfolding d by (rule floor_divide_of_int_eq)
  moreover have "k * L div 4294967296 < L"
    using k(1) Lpos by (simp add: less_mult_imp_div_less mult.commute)
  ultimately show ?thesis unfolding L_def [symmetric] by (simp add: zdiv_int [symmetric] del: of_nat_mult)
qed

lemma pick_member:
  assumes "xs \<noteq> []" "length xs \<le> 2 ^ 20"
  shows "pick xs (fst (rng s)) \<in> set xs"
  unfolding pick_def using pick_index [OF assms] by (rule nth_mem)

lemma generateEvents_sorted:
  "generateEvents clock cnt st en = Inr (notes, events) \<Longrightarrow> sorted (map timestamp events)"
  by (auto simp: generateEvents_def Let_def split_def sortBy_timestamp split: if_splits)

section \<open>Properties of the filter engine\<close>

lemma toLowerCase_FAILED: "toLowerCase ''FAILED'' = ''failed''"
  by code_simp

lemma keepEvent_iff:
  "keepEvent f e \<longleftrightarrow>
     start_t (timeRange f) \<le> timestamp e \<and> timestamp e \<le> end_t (timeRange f)
     \<and> (eventTypes f = [] \<or> eventType e \<in> set (eventTypes f))
     \<and> (services f = [] \<or> service e \<in> set (services f))
     \<and> (searchQuery f = []
        \<or> (case message e of
              None \<Rightarrow> True
            | Some m \<Rightarrow> m = [] \<or> sublist (toLowerCase (searchQuery f)) (toLowerCase m)))"
  by (auto simp: keepEvent_def Let_def str_includes_def split: option.splits)

lemma sampleEvents_search:
  "filterEvents sampleEvents (searchFilters ''FAILED'')
     = [mkEvent 2000 Error AuthService (Some ''Auth failed''),
        mkEvent 3000 Metric ApiGateway None]"
  by code_simp

lemma sampleEvents_ascii:
  "isAscii (searchQuery (searchFilters ''FAILED''))"
  "\<forall>e \<in> set sampleEvents. case message e of None \<Rightarrow> True | Some m \<Rightarrow> isAscii m"
  by code_simp+

text \<open>
  Claim C2, as the specification words it: the result is exactly the events that satisfy
  the four clauses, so with a non-empty query no event without a message is returned.
  The source guards the search test with \<^verbatim>\<open>event.message &&\<close>: an event whose message
  is absent passes. Here the query is \<open>FAILED\<close> and the third event has no message, yet
  it is returned, while the predicate of the specification rejects it.
\<close>

theorem C2_counterexample:
  "filterEvents [mkEvent 3000 Metric ApiGateway None] (searchFilters ''FAILED'')
     = [mkEvent 3000 Metric ApiGateway None]
   \<and> searchQuery (searchFilters ''FAILED'') \<noteq> []
   \<and> message (mkEvent 3000 Metric ApiGateway None) = None
   \<and> filter (spec_matches (searchFilters ''FAILED'')) [mkEvent 3000 Metric ApiGateway None] = []"
  by (simp add: filterEvents_def keepEvent_iff spec_matches_def mkEvent_def searchFilters_def)

text \<open>
  Claim C2, amended: when the query and the messages of the events are ASCII strings, the
  result is the stable subsequence of the events that satisfy the conjunction of: timestamp
  within the inclusive range; type membership when the type list is non-empty; service
  membership when the service list is non-empty; and, when the query is non-empty, that the
  message, if there is a non-empty one, contains the query without regard to the case of
  the letters A to Z. An event with no message, or an empty one, passes the search clause.
\<close>

theorem C2_filter_characterisation:
  assumes "isAscii (searchQuery f)"
    and "\<forall>e \<in> set events. case message e of None \<Rightarrow> True | Some m \<Rightarrow> isAscii m"
  shows "filterEvents events f =
     filter (\<lambda>e. start_t (timeRange f) \<le> timestamp e \<and> timestamp e \<le> end_t (timeRange f)
        \<and> (eventTypes f = [] \<or> eventType e \<in> set (eventTypes f))
        \<and> (services f = [] \<or> service e \<in> set (services f))
        \<and> (searchQuery f = [] \<or> message e = None \<or> message e = Some []
           \<or> (\<exists>m. message e = Some m
                 \<and> sublist (toLowerCase (searchQuery f)) (toLowerCase m)))) events
   \<and> subseq (filterEvents events f) events"
proof
  have "keepEvent f = (\<lambda>e. start_t (timeRange f) \<le> timestamp e \<and> timestamp e \<le> end_t (timeRange f)
        \<and> (eventTypes f = [] \<or> eventType e \<in> set (eventTypes f))
        \<and> (services f = [] \<or> service e \<in> set (services f))
        \<and> (searchQuery f = [] \<or> message e = None \<or> message e = Some []
           \<or> (\<exists>m. message e = Some m
                 \<and> sublist (toLowerCase (searchQuery f)) (toLowerCase m))))"
    by (rule ext) (auto simp: keepEvent_iff split: option.splits)
  then show "filterEvents events f =
     filter (\<lambda>e. start_t (timeRange f) \<le> timestamp e \<and> timestamp e \<le> end_t (timeRange f)
        \<and> (eventTypes f = [] \<or> eventType e \<in> set (eventTypes f))
        \<and> (services f = [] \<or> service e \<in> set (services f))
        \<and> (searchQuery f = [] \<or> message e = None \<or> message e = Some []
           \<or> (\<exists>m. message e = Some m
                 \<and> sublist (toLowerCase (searchQuery f)) (toLowerCase m)))) events"
    by (simp add: filterEvents_def)
  show "subseq (filterEvents events f) events"
    by (simp add: filterEvents_def)
qed

theorem C2_filter_characterisation_witness:
  "filterEvents sampleEvents (searchFilters ''FAILED'')
     = [mkEvent 2000 Error AuthService (Some ''Auth failed''),
        mkEvent 3000 Metric ApiGateway None]
   \<and> subseq [mkEvent 2000 Error AuthService (Some ''Auth failed''),
        mkEvent 3000 Metric ApiGateway None] sampleEvents"
  using C2_filter_characterisation [OF sampleEvents_ascii, THEN conjunct2]
  by (simp only: sampleEvents_search simp_thms)

text \<open>
  Claim C8: filtering is idempotent, \<open>filter (filter E F) F = filter E F\<close>, for every
  event list and every filter state.
\<close>

theorem C8_filter_idempotent:
  "filterEvents (filterEvents E F) F = filterEvents E F"
  by (simp add: filterEvents_def)

theorem C8_filter_idempotent_witness:
  "filterEvents (filterEvents sampleEvents (searchFilters ''FAILED'')) (searchFilters ''FAILED'')
     = [mkEvent 2000 Error AuthService (Some ''Auth failed''),
        mkEvent 3000 Metric ApiGateway None]"
  using C8_filter_idempotent [of sampleEvents "searchFilters ''FAILED''"]
  by (simp only: sampleEvents_search)
section \<open>Properties of the aggregation engine\<close>

text \<open>
  Claim C7, as stated: for every event and every positive bucket width the bucket key is
  \<open>floor (timestamp / bucketWidth) * bucketWidth\<close>. The quotient and the product are
  computed in double arithmetic and each rounds. For the timestamp \<open>- (2 ^ 53 - 1)\<close>,
  which a double holds exactly, and the width 3 the quotient rounds to
  \<open>-3002399751580330.5\<close>, its floor times 3 is \<open>- (2 ^ 53 + 1)\<close>, which is not a
  double, and the key of the returned bucket is \<open>- (2 ^ 53)\<close>, while
  \<open>floor (timestamp / 3) * 3\<close> is \<open>- (2 ^ 53 + 1)\<close>.
\<close>

theorem C7_counterexample:
  "map timestamp_a (aggregateEvents [valueEvent (- 9007199254740991) 5] 3)
     = [Num (- 9007199254740992)]
   \<and> \<lfloor>(of_int (- 9007199254740991) :: rat) / of_int 3\<rfloor> * 3 = - 9007199254740993"
proof -
  have "bucketKey (- 9007199254740991) 3 = Num (- 9007199254740992)"
    by (simp add: bucketKey_def large_quotient large_floor imul_def large_product)
  moreover have "\<lfloor>(of_int (- 9007199254740991) :: rat) / of_int 3\<rfloor> = - 3002399751580331"
    by (simp add: floor_eq_iff)
  ultimately show ?thesis
    by (simp add: aggregateEvents_single bucketStats_simps)
qed

text \<open>
  Claim C7, amended: for every event and every positive bucket width, both integers of
  magnitude at most \<open>2 ^ 52\<close>, the event's bucket key is
  \<open>floor (timestamp / bucketWidth) * bucketWidth\<close> with the floor towards minus infinity,
  and the event's bucket is among the buckets returned. The key is the start of the
  interval of length \<open>bucketWidth\<close> that contains the timestamp, also for a negative
  timestamp: \<open>-1\<close> with width 1000 falls into bucket \<open>-1000\<close>.
\<close>

theorem C7_bucket_key_floor:
  assumes "0 < w" "w \<le> 2 ^ 52" "e \<in> set events" "\<bar>timestamp e\<bar> \<le> 2 ^ 52"
  shows "bucketKey (timestamp e) w = Num (\<lfloor>(of_int (timestamp e) :: rat) / of_int w\<rfloor> * w)
    \<and> (\<exists>b \<in> set (aggregateEvents events w).
          timestamp_a b = Num (\<lfloor>(of_int (timestamp e) :: rat) / of_int w\<rfloor> * w))
    \<and> \<lfloor>(of_int (timestamp e) :: rat) / of_int w\<rfloor> * w \<le> timestamp e
    \<and> timestamp e < \<lfloor>(of_int (timestamp e) :: rat) / of_int w\<rfloor> * w + w"
proof -
  have fl: "\<lfloor>(of_int (timestamp e) :: rat) / of_int w\<rfloor> = timestamp e div w"
    by (rule floor_divide_of_int_eq)
  have key: "bucketKey (timestamp e) w = Num ((timestamp e div w) * w)"
    using assms by (intro bucketKey_floor) simp_all
  have "bucketKey (timestamp e) w \<in> set (map timestamp_a (aggregateEvents events w))"
    using assms(3) by (simp only: aggregateEvents_timestamps_set) simp
  then have ex: "\<exists>b \<in> set (aggregateEvents events w). timestamp_a b = Num ((timestamp e div w) * w)"
    by (auto simp: key)
  have "timestamp e div w * w = timestamp e - timestamp e mod w"
    by (simp add: minus_mod_eq_div_mult)
  moreover have "0 \<le> timestamp e mod w" "timestamp e mod w < w" using assms(1) by simp_all
  ultimately have "timestamp e div w * w \<le> timestamp e" "timestamp e < timestamp e div w * w + w"
    by linarith+
  with key ex show ?thesis by (simp only: fl)
qed

theorem C7_bucket_key_floor_witness:
  "bucketKey (- 1) 1000 = Num (- 1000)
   \<and> Num (- 1000) \<in> timestamp_a ` set (aggregateEvents [valueEvent (- 1) 5] 1000)"
proof -
  have fl: "\<lfloor>- (1 / 1000 :: rat)\<rfloor> = - 1" by (simp add: floor_eq_iff)
  show ?thesis
    using C7_bucket_key_floor [of 1000 "valueEvent (- 1) 5" "[valueEvent (- 1) 5]"]
    by (auto simp: fl intro: rev_image_eqI)
qed

text \<open>
  Claim C6: for every event list and every positive bucket width, the value collections of
  the buckets add up, as multisets, to the multiset of the input values, and the bucket
  counts add up to the number of events; no events give no buckets; the timestamps of the
  returned buckets are exactly the distinct bucket keys of the events, each bucket counting
  the events with its key, so that no bucket is empty.
\<close>

theorem C6_aggregation_partition:
  assumes "0 < bucketWidth"
  shows "(\<Sum>b\<leftarrow>groupValues events bucketWidth. mset (snd b)) = mset (map value_e events)
    \<and> sum_list (map count_a (aggregateEvents events bucketWidth)) = length events
    \<and> aggregateEvents [] bucketWidth = []
    \<and> set (map timestamp_a (aggregateEvents events bucketWidth))
        = (\<lambda>e. bucketKey (timestamp e) bucketWidth) ` set events
    \<and> distinct (map timestamp_a (aggregateEvents events bucketWidth))
    \<and> (\<forall>b \<in> set (aggregateEvents events bucketWidth).
          0 < count_a b
          \<and> count_a b
              = length (filter (\<lambda>e. bucketKey (timestamp e) bucketWidth = timestamp_a b) events))"
proof -
  have "\<forall>b \<in> set (aggregateEvents events bucketWidth).
          0 < count_a b
          \<and> count_a b
              = length (filter (\<lambda>e. bucketKey (timestamp e) bucketWidth = timestamp_a b) events)"
  proof
    fix b
    assume "b \<in> set (aggregateEvents events bucketWidth)"
    then obtain vs where vs: "vs \<noteq> []"
      "vs = map value_e (filter (\<lambda>e. bucketKey (timestamp e) bucketWidth = timestamp_a b) events)"
      "b = bucketStats (timestamp_a b, vs)"
      unfolding aggregateEvents_member by blast
    have "count_a b = length vs" by (subst vs(3)) (simp add: bucketStats_simps)
    then show "0 < count_a b
          \<and> count_a b
              = length (filter (\<lambda>e. bucketKey (timestamp e) bucketWidth = timestamp_a b) events)"
      using vs(1) by (simp add: vs(2))
  qed
  then show ?thesis
    by (simp only: groupValues_mset aggregateEvents_count_sum aggregateEvents_Nil
        aggregateEvents_timestamps_set aggregateEvents_timestamps_distinct simp_thms)
qed

theorem C6_aggregation_partition_witness:
  "sum_list (map count_a (aggregateEvents fourEvents 1000)) = 4
   \<and> set (map timestamp_a (aggregateEvents fourEvents 1000)) = {Num 0, Num 1000}
   \<and> (\<Sum>b\<leftarrow>groupValues fourEvents 1000. mset (snd b)) = {#10, 20, 30, 40#}"
proof -
  have k: "bucketKey 0 1000 = Num 0" "bucketKey 500 1000 = Num 0"
    "bucketKey 1000 1000 = Num 1000" "bucketKey 1500 1000 = Num 1000"
    by (simp_all add: bucketKey_floor)
  show ?thesis
    using C6_aggregation_partition [of 1000 fourEvents]
    by (simp add: fourEvents_def valueEvent_def k insert_commute)
qed


text \<open>
  Claim C5: the p95 of a returned bucket is the element of the ascending-sorted values of
  the bucket's events at index \<open>min (floor (count * 0.95)) (count - 1)\<close>. An array holds
  at most \<open>2 ^ 32\<close> events. One hundred events with the values 1 to 100 in one bucket
  have p95 = 96; a bucket of one event has that event's value as its p95.
\<close>

theorem C5_p95_nearest_rank:
  assumes "length events \<le> 2 ^ 32" "b \<in> set (aggregateEvents events bucketWidth)"
  shows "let vs = sort (map value_e
                    (filter (\<lambda>e. bucketKey (timestamp e) bucketWidth = timestamp_a b) events));
             n = length vs
         in 0 < n \<and> count_a b = n
            \<and> p95_a b = vs ! min (nat \<lfloor>(of_nat n :: rat) * (95 / 100)\<rfloor>) (n - 1)"
proof -
  from assms(2) obtain vs0 where vs0: "vs0 \<noteq> []"
      "vs0 = map value_e (filter (\<lambda>e. bucketKey (timestamp e) bucketWidth = timestamp_a b) events)"
      "b = bucketStats (timestamp_a b, vs0)"
    unfolding aggregateEvents_member by blast
  define n where "n = length vs0"
  have npos: "0 < n" using vs0(1) by (simp add: n_def)
  have "n \<le> length events" unfolding n_def vs0(2) by simp
  then have nb: "n \<le> 2 ^ 32" using assms(1) by simp
  have f: "nat \<lfloor>(of_nat n :: rat) * (95 / 100)\<rfloor> = (19 * n) div 20"
    by (simp only: floor_95_percent nat_int)
  have "nat (min (int ((19 * n) div 20)) (int n - 1)) = min ((19 * n) div 20) (n - 1)"
    using npos by (simp add: min_def)
  then have idx: "nat (min (p95Index n) (int n - 1)) = min (nat \<lfloor>(of_nat n :: rat) * (95 / 100)\<rfloor>) (n - 1)"
    by (simp only: p95Index_eq [OF nb] f)
  have "p95_a b = sort vs0 ! nat (min (p95Index n) (int n - 1))"
    by (subst vs0(3)) (simp add: bucketStats_simps n_def)
  then have p: "p95_a b = sort vs0 ! min (nat \<lfloor>(of_nat n :: rat) * (95 / 100)\<rfloor>) (n - 1)"
    by (simp only: idx)
  have c: "count_a b = n" by (subst vs0(3)) (simp add: bucketStats_simps n_def)
  show ?thesis
    using npos p c unfolding Let_def vs0(2) [symmetric] by (simp add: n_def)
qed

theorem C5_p95_nearest_rank_witness:
  "map p95_a (aggregateEvents hundredEvents 60000) = [96]
   \<and> map p95_a (aggregateEvents [valueEvent 0 42] 60000) = [42]"
proof -
  have k0: "bucketKey 0 60000 = Num 0" by (simp add: bucketKey_floor)
  have "\<exists>b. aggregateEvents hundredEvents 60000 = [b] \<and> timestamp_a b = Num 0"
    by (rule single_bucket) (simp_all add: hundredEvents_def valueEvent_def k0)
  then obtain b where b: "aggregateEvents hundredEvents 60000 = [b]" "timestamp_a b = Num 0"
    by blast
  have vals: "map value_e (filter (\<lambda>e. bucketKey (timestamp e) 60000 = Num 0) hundredEvents)
      = map of_nat [1..<101]"
    by (simp add: hundredEvents_def valueEvent_def k0 comp_def)
  have srt: "sort (map rat_of_nat [Suc 0..<101]) = map of_nat [Suc 0..<101]"
    by (rule sorted_sort_id) (simp add: sorted_map sorted_wrt_iff_nth_less)
  have "p95_a b = 96"
    using C5_p95_nearest_rank [of hundredEvents b 60000] b
    by (simp add: hundredEvents_def [THEN arg_cong, of length] vals [unfolded b(2) [symmetric]] vals srt Let_def)
  then have 1: "map p95_a (aggregateEvents hundredEvents 60000) = [96]" by (simp add: b)
  have "\<exists>c. aggregateEvents [valueEvent 0 42] 60000 = [c] \<and> timestamp_a c = Num 0"
    by (rule single_bucket) (simp_all add: valueEvent_def k0)
  then obtain c where c: "aggregateEvents [valueEvent 0 42] 60000 = [c]" "timestamp_a c = Num 0"
    by blast
  have "p95_a c = 42"
    using C5_p95_nearest_rank [of "[valueEvent 0 42]" c 60000] c
    by (simp add: valueEvent_def k0 Let_def)
  then have 2: "map p95_a (aggregateEvents [valueEvent 0 42] 60000) = [42]" by (simp add: c)
  from 1 2 show ?thesis by simp
qed





text \<open>
  Claim C1, as stated: a bucket width of zero or less makes the aggregation fail with an
  InvalidArgument condition. The source does not inspect the width and never throws: the
  handler answers with an aggregated response. For one event at timestamp 500, the width
  \<open>-1000\<close> gives one bucket with key 1000, the width 0 gives one bucket whose key is
  \<^verbatim>\<open>NaN\<close>, and no events give no buckets.
\<close>

theorem C1_counterexample:
  "onmessage (constClock 0) (Aggregate [valueEvent 500 7] AggCount (- 1000))
     = [Aggregated [\<lparr>timestamp_a = Num 1000, count_a = 1, avg_a = 7, sum_a = 7,
                     min_a = 7, max_a = 7, p95_a = 7\<rparr>]]
   \<and> onmessage (constClock 0) (Aggregate [valueEvent 500 7] AggCount 0)
     = [Aggregated [\<lparr>timestamp_a = NaN, count_a = 1, avg_a = 7, sum_a = 7,
                     min_a = 7, max_a = 7, p95_a = 7\<rparr>]]
   \<and> onmessage (constClock 0) (Aggregate [] AggCount 0) = [Aggregated []]"
proof -
  have k: "bucketKey 500 (- 1000) = Num 1000" by (simp add: bucketKey_floor)
  have z: "bucketKey 500 0 = NaN" by (simp add: bucketKey_def)
  have b: "\<And>k. bucketStats (k, [7])
     = \<lparr>timestamp_a = k, count_a = 1, avg_a = 7, sum_a = 7, min_a = 7, max_a = 7, p95_a = 7\<rparr>"
    by (rule bucketStats_single) simp_all
  show ?thesis
    by (simp add: onmessage_def aggregateEvents_single k z b)
qed

text \<open>
  Claim C1, amended: for every event list and every bucket width of zero or less the
  aggregation terminates without an error and the handler posts one aggregated response;
  no events give no buckets; with the width 0 all events fall into one bucket whose key is
  \<^verbatim>\<open>NaN\<close>; with a negative width (and integers a double holds exactly) the keys are
  \<open>floor (timestamp / bucketWidth) * bucketWidth\<close>.
\<close>

theorem C1_nonpositive_width:
  assumes "bucketWidth \<le> 0"
  shows "onmessage clock (Aggregate events aggregationType bucketWidth)
      = [Aggregated (aggregateEvents events bucketWidth)]
    \<and> aggregateEvents [] bucketWidth = []
    \<and> (bucketWidth = 0 \<and> events \<noteq> [] \<longrightarrow>
          map timestamp_a (aggregateEvents events bucketWidth) = [NaN]
          \<and> map count_a (aggregateEvents events bucketWidth) = [length events])
    \<and> (bucketWidth < 0 \<and> - (2 ^ 52) \<le> bucketWidth
         \<and> (\<forall>e \<in> set events. \<bar>timestamp e\<bar> \<le> 2 ^ 52) \<longrightarrow>
          set (map timestamp_a (aggregateEvents events bucketWidth))
            = (\<lambda>e. Num (\<lfloor>(of_int (timestamp e) :: rat) / of_int bucketWidth\<rfloor> * bucketWidth))
                ` set events)"
proof -
  have 1: "onmessage clock (Aggregate events aggregationType bucketWidth)
      = [Aggregated (aggregateEvents events bucketWidth)]"
    by (simp add: onmessage_def)
  have 3: "map timestamp_a (aggregateEvents events bucketWidth) = [NaN]
          \<and> map count_a (aggregateEvents events bucketWidth) = [length events]"
    if "bucketWidth = 0" "events \<noteq> []"
  proof -
    have "\<exists>b. aggregateEvents events bucketWidth = [b] \<and> timestamp_a b = NaN"
      using that by (intro single_bucket) (simp_all add: bucketKey_def)
    then obtain b where b: "aggregateEvents events bucketWidth = [b]" "timestamp_a b = NaN"
      by blast
    have "count_a b = length events"
      using aggregateEvents_count_sum [of events bucketWidth] by (simp add: b)
    with b show ?thesis by simp
  qed
  have 4: "set (map timestamp_a (aggregateEvents events bucketWidth))
            = (\<lambda>e. Num (\<lfloor>(of_int (timestamp e) :: rat) / of_int bucketWidth\<rfloor> * bucketWidth))
                ` set events"
    if w: "bucketWidth < 0" "- (2 ^ 52) \<le> bucketWidth"
      and t: "\<forall>e \<in> set events. \<bar>timestamp e\<bar> \<le> 2 ^ 52"
  proof -
    have "bucketKey (timestamp e) bucketWidth
        = Num (\<lfloor>(of_int (timestamp e) :: rat) / of_int bucketWidth\<rfloor> * bucketWidth)"
      if "e \<in> set events" for e
      using that w t by (simp add: bucketKey_floor floor_divide_of_int_eq)
    then show ?thesis by (simp only: aggregateEvents_timestamps_set) (rule image_cong, simp_all)
  qed
  show ?thesis using 1 3 4 by simp
qed

theorem C1_nonpositive_width_witness:
  "onmessage (constClock 0) (Aggregate [valueEvent 500 7, valueEvent 1700 9] AggCount (- 1000))
      = [Aggregated (aggregateEvents [valueEvent 500 7, valueEvent 1700 9] (- 1000))]
   \<and> set (map timestamp_a (aggregateEvents [valueEvent 500 7, valueEvent 1700 9] (- 1000)))
      = {Num 1000, Num 2000}"
proof -
  have fl: "\<lfloor>- (1 / 2 :: rat)\<rfloor> = - 1" "\<lfloor>- (17 / 10 :: rat)\<rfloor> = - 2"
    by (simp_all add: floor_eq_iff)
  show ?thesis
    using C1_nonpositive_width [of "- 1000" "constClock 0" "[valueEvent 500 7, valueEvent 1700 9]" AggCount]
    by (simp add: fl)
qed

section \<open>Properties of the bucket size selection\<close>

text \<open>
  Claim C9: when an aggregation is requested, the bucket size is a step function of the
  span \<open>end - start\<close> of the active time range: at most one hour gives one-minute
  buckets, at most six hours five-minute buckets, at most 24 hours 15-minute buckets, and
  a longer span one-hour buckets. The subtraction is a double subtraction; the thresholds
  are small integers, so rounding never moves the difference across one of them.
\<close>

theorem C9_bucket_width_selection:
  assumes "hasWorker" "filteredEvents \<noteq> []"
  shows "aggregateEffect hasWorker filteredEvents aggregationType filters =
     Some (Aggregate filteredEvents aggregationType
       (let span = end_t (timeRange filters) - start_t (timeRange filters)
        in if span \<le> 60 * 60 * 1000 then 60 * 1000
           else if span \<le> 6 * 60 * 60 * 1000 then 5 * 60 * 1000
           else if span \<le> 24 * 60 * 60 * 1000 then 15 * 60 * 1000
           else 60 * 60 * 1000))"
  using assms
  by (simp add: aggregateEffect_def isub_def dint_le_iff Let_def MINUTE_def HOUR_def)

theorem C9_bucket_width_selection_witness:
  "aggregateEffect True [valueEvent 0 1] AggCount (rangeFilters 0 (30 * 60 * 1000))
     = Some (Aggregate [valueEvent 0 1] AggCount (60 * 1000))
   \<and> aggregateEffect True [valueEvent 0 1] AggCount (rangeFilters 0 (3 * 60 * 60 * 1000))
     = Some (Aggregate [valueEvent 0 1] AggCount (5 * 60 * 1000))
   \<and> aggregateEffect True [valueEvent 0 1] AggCount (rangeFilters 0 (20 * 60 * 60 * 1000))
     = Some (Aggregate [valueEvent 0 1] AggCount (15 * 60 * 1000))
   \<and> aggregateEffect True [valueEvent 0 1] AggCount (rangeFilters 0 (48 * 60 * 60 * 1000))
     = Some (Aggregate [valueEvent 0 1] AggCount (60 * 60 * 1000))"
  using C9_bucket_width_selection [of True "[valueEvent 0 1]" AggCount "rangeFilters 0 (30 * 60 * 1000)"]
    C9_bucket_width_selection [of True "[valueEvent 0 1]" AggCount "rangeFilters 0 (3 * 60 * 60 * 1000)"]
    C9_bucket_width_selection [of True "[valueEvent 0 1]" AggCount "rangeFilters 0 (20 * 60 * 60 * 1000)"]
    C9_bucket_width_selection [of True "[valueEvent 0 1]" AggCount "rangeFilters 0 (48 * 60 * 60 * 1000)"]
  by (simp add: rangeFilters_def)

section \<open>Properties of the generator\<close>

text \<open>
  Claim C3, as stated: generation succeeds for every count of zero or more, and a time
  range with \<open>start > end\<close> is clamped, so that no timestamp is before \<open>start\<close>.
  \<^verbatim>\<open>new Array(count)\<close> throws for a count of \<open>2 ^ 32\<close>, and the time span is not
  clamped: with \<open>start = 1000\<close>, \<open>end = 0\<close> and the random source seeded with 0, the one
  generated event has the timestamp 777, which is before \<open>start\<close>.
\<close>

theorem C3_counterexample:
  "generateEvents (constClock 0) 4294967296 0 1000 = Inl (RangeError ''Invalid array length'')
   \<and> map timestamp (snd (projr (generateEvents (constClock 0) 1 1000 0))) = [777]"
proof -
  have 1: "generateEvents (constClock 0) 4294967296 0 1000 = Inl (RangeError ''Invalid array length'')"
    by (rule generateEvents_Inl) simp
  have sp: "isub 0 1000 = - 1000" by (simp add: isub_def dint_exact)
  have "generateEvents (constClock 0) 1 1000 0 =
     Inr (snd (generateLoop (constClock 0) (nat 1) 1000 (isub 0 1000) (nat 1) 0 (constClock 0 0)),
          sortBy (\<lambda>a b. 0 < isub (timestamp a) (timestamp b))
            (fst (generateLoop (constClock 0) (nat 1) 1000 (isub 0 1000) (nat 1) 0 (constClock 0 0))))"
    by (rule generateEvents_Inr) simp_all
  then have "snd (projr (generateEvents (constClock 0) 1 1000 0))
      = [fst (genEvent (constClock 0 (Suc 0)) 1000 (- 1000) 0 0)]"
    by (simp add: sp constClock_def split_def)
  then have 2: "map timestamp (snd (projr (generateEvents (constClock 0) 1 1000 0))) = [777]"
    by (simp add: ex_timestamp)
  from 1 2 show ?thesis by simp
qed

text \<open>
  Claim C3, amended: for every count from 0 to \<open>2 ^ 32 - 1\<close> and every time range the
  generator returns exactly \<open>count\<close> events, none for the count 0. The time span is the
  signed difference \<open>end - start\<close>: every timestamp lies between \<open>start\<close> and \<open>end\<close>, so
  with \<open>start > end\<close> the timestamps lie in \<open>[end, start]\<close>, at or before \<open>start\<close>
  (for range bounds that a double holds exactly, of magnitude at most \<open>2 ^ 52\<close>). A
  count of \<open>2 ^ 32\<close> or more makes the array allocation throw a RangeError.
\<close>

theorem C3_generate_total:
  shows "(0 \<le> cnt \<and> cnt < 2 ^ 32 \<longrightarrow>
      (\<exists>notes events. generateEvents clock cnt startTime endTime = Inr (notes, events)
        \<and> length events = nat cnt
        \<and> (cnt = 0 \<longrightarrow> events = [])
        \<and> (\<bar>startTime\<bar> \<le> 2 ^ 52 \<and> \<bar>endTime\<bar> \<le> 2 ^ 52 \<longrightarrow>
             (\<forall>e \<in> set events.
                min startTime endTime \<le> timestamp e \<and> timestamp e \<le> max startTime endTime))))
    \<and> (2 ^ 32 \<le> cnt \<longrightarrow>
      generateEvents clock cnt startTime endTime = Inl (RangeError ''Invalid array length''))"
proof (intro conjI impI)
  assume "2 ^ 32 \<le> cnt"
  then show "generateEvents clock cnt startTime endTime = Inl (RangeError ''Invalid array length'')"
    by (intro generateEvents_Inl) simp
next
  assume "0 \<le> cnt \<and> cnt < 2 ^ 32"
  then have assms: "0 \<le> cnt" "cnt < 2 ^ 32" by simp_all
  define loop where
    "loop = generateLoop clock (nat cnt) startTime (isub endTime startTime) (nat cnt) 0 (clock 0)"
  define events where
    "events = sortBy (\<lambda>a b. 0 < isub (timestamp a) (timestamp b)) (fst loop)"
  have g: "generateEvents clock cnt startTime endTime = Inr (snd loop, events)"
    unfolding loop_def events_def using assms by (rule generateEvents_Inr)
  have l: "length events = nat cnt" by (simp add: events_def loop_def generateLoop_length)
  have b: "\<forall>e \<in> set events.
      min startTime endTime \<le> timestamp e \<and> timestamp e \<le> max startTime endTime"
    if r: "\<bar>startTime\<bar> \<le> 2 ^ 52" "\<bar>endTime\<bar> \<le> 2 ^ 52"
  proof -
    have "min startTime endTime \<le> timestamp (fst (genEvent now startTime (isub endTime startTime) i seed))
        \<and> timestamp (fst (genEvent now startTime (isub endTime startTime) i seed)) \<le> max startTime endTime"
      for now i seed
      using genEvent_timestamp [of now startTime "isub endTime startTime" i seed]
        timestamp_bounds [OF r] by auto
    then have "\<forall>e \<in> set (fst loop).
        min startTime endTime \<le> timestamp e \<and> timestamp e \<le> max startTime endTime"
      unfolding loop_def by (rule generateLoop_timestamps)
    then show ?thesis by (simp add: events_def)
  qed
  show "\<exists>notes events. generateEvents clock cnt startTime endTime = Inr (notes, events)
        \<and> length events = nat cnt
        \<and> (cnt = 0 \<longrightarrow> events = [])
        \<and> (\<bar>startTime\<bar> \<le> 2 ^ 52 \<and> \<bar>endTime\<bar> \<le> 2 ^ 52 \<longrightarrow>
             (\<forall>e \<in> set events.
                min startTime endTime \<le> timestamp e \<and> timestamp e \<le> max startTime endTime))"
    using g l b by auto
qed

theorem C3_generate_total_witness:
  "length (snd (projr (generateEvents (constClock 0) 1 1000 0))) = 1
   \<and> generateEvents (constClock 0) 0 1000 0 = Inr ([], [])"
proof -
  have "generateEvents (constClock 0) 0 1000 0 = Inr ([], [])"
    using C3_generate_total [of 0 "constClock 0" 1000 0]
    by (simp add: generateEvents_def Let_def createRng_def sortBy_def)
  moreover have "length (snd (projr (generateEvents (constClock 0) 1 1000 0))) = 1"
    using C3_generate_total [of 1 "constClock 0" 1000 0] by auto
  ultimately show ?thesis by simp
qed

text \<open>
  Claim C4, as stated: two generator runs with the same seed and the same inputs produce
  identical datasets. The generator has no seed parameter; it seeds the random source with
  the clock on entry and salts every identifier with the clock at the event's creation.
  Two runs that read the same clock value 1000 on entry, one of them one millisecond later
  at the first event, produce the identifiers \<open>evt_0_rs\<close> and \<open>evt_0_rt\<close>.
\<close>

theorem C4_counterexample:
  "constClock 1000 0 = tickClock 1000 0
   \<and> map id_e (snd (projr (generateEvents (constClock 1000) 1 0 1000))) = [''evt_0_rs'']
   \<and> map id_e (snd (projr (generateEvents (tickClock 1000) 1 0 1000))) = [''evt_0_rt'']"
proof -
  have "snd (projr (generateEvents clock 1 0 1000))
      = [fst (genEvent (clock (Suc 0)) 0 (isub 1000 0) 0 (clock 0))]" for clock
    using generateEvents_Inr [of 1 clock 0 1000] by (simp add: split_def)
  then show ?thesis
    by (simp add: genEvent_id constClock_def tickClock_def toString36_1000)
qed

text \<open>
  Claim C4, amended: the values of a random source are a function of its seed alone and lie
  in \<open>[0, 1)\<close>. Two generator runs with the same count and time range produce identical
  results when all their clock readings agree; when only the reading that seeds the random
  source agrees, the results are identical up to the identifiers of the events.
\<close>

theorem C4_determinism:
  "(seed1 = seed2 \<longrightarrow> rngValues (createRng seed1) n = rngValues (createRng seed2) n)
   \<and> (\<forall>v \<in> set (rngValues (createRng seed1) n). 0 \<le> v \<and> v < 1)
   \<and> ((\<forall>k \<le> nat cnt. clock1 k = clock2 k) \<longrightarrow>
        generateEvents clock1 cnt startTime endTime = generateEvents clock2 cnt startTime endTime)
   \<and> (clock1 0 = clock2 0 \<longrightarrow>
        map_sum id (map_prod id stripIds) (generateEvents clock1 cnt startTime endTime)
          = map_sum id (map_prod id stripIds) (generateEvents clock2 cnt startTime endTime))"
proof -
  have 3: "generateEvents clock1 cnt startTime endTime = generateEvents clock2 cnt startTime endTime"
    if eq: "\<forall>k \<le> nat cnt. clock1 k = clock2 k"
  proof (cases "0 \<le> cnt \<and> cnt < 2 ^ 32")
    case True
    have 0: "clock1 0 = clock2 0" using eq by simp
    have "generateLoop clock1 (nat cnt) startTime (isub endTime startTime) (nat cnt) 0 (clock2 0)
        = generateLoop clock2 (nat cnt) startTime (isub endTime startTime) (nat cnt) 0 (clock2 0)"
      using eq by (intro generateLoop_clock) simp
    then show ?thesis using True by (simp add: generateEvents_Inr 0)
  next
    case False
    then have "cnt < 0 \<or> 2 ^ 32 \<le> cnt" by auto
    then show ?thesis by (simp only: generateEvents_Inl)
  qed
  have 4: "map_sum id (map_prod id stripIds) (generateEvents clock1 cnt startTime endTime)
          = map_sum id (map_prod id stripIds) (generateEvents clock2 cnt startTime endTime)"
    if 0: "clock1 0 = clock2 0"
  proof (cases "0 \<le> cnt \<and> cnt < 2 ^ 32")
    case True
    have s: "stripIds (fst (generateLoop clock1 (nat cnt) startTime (isub endTime startTime) (nat cnt) 0 (clock2 0)))
        = stripIds (fst (generateLoop clock2 (nat cnt) startTime (isub endTime startTime) (nat cnt) 0 (clock2 0)))"
      "snd (generateLoop clock1 (nat cnt) startTime (isub endTime startTime) (nat cnt) 0 (clock2 0))
        = snd (generateLoop clock2 (nat cnt) startTime (isub endTime startTime) (nat cnt) 0 (clock2 0))"
      using generateLoop_strip [of "[]" clock1 "nat cnt" startTime "isub endTime startTime" "nat cnt" 0 "clock2 0" clock2]
      by (simp_all add: stripIds_def)
    show ?thesis using True by (simp add: generateEvents_Inr 0 stripIds_sortBy s)
  next
    case False
    then have "cnt < 0 \<or> 2 ^ 32 \<le> cnt" by auto
    then show ?thesis by (simp only: generateEvents_Inl)
  qed
  show ?thesis using 3 4 rngValues_range by simp
qed

theorem C4_determinism_witness:
  "map_sum id (map_prod id stripIds) (generateEvents (constClock 1000) 3 0 1000)
     = map_sum id (map_prod id stripIds) (generateEvents (tickClock 1000) 3 0 1000)
   \<and> rngValues (createRng 1000) 4 = rngValues (createRng (999 + 1)) 4"
  using C4_determinism [of 1000 "999 + 1" 4 3 "constClock 1000" "tickClock 1000" 0 1000]
  by (simp add: constClock_def tickClock_def)


end
